theory Spec2Isabelle
  imports Main
begin

unbundle bit_operations_syntax

section \<open>The CRC code generator \<^verbatim>\<open>phy_fpga/crcgen.py\<close>\<close>

text \<open>
  The generator builds, for an 8 bit CRC with polynomial \<open>P\<close>, one exclusive-or formula per
  output bit, flattens and optimizes the formulas and prints them as Python, Verilog or C.
  This theory embeds the expression classes \<^verbatim>\<open>Bit\<close>, \<^verbatim>\<open>XOR\<close> and \<^verbatim>\<open>Word\<close>, the
  unrolling \<^verbatim>\<open>CrcGen.__gen\<close>, the reference \<^verbatim>\<open>crc8_ref\<close> and the validation of the
  command line, and proves the properties the specification states about them.

  Conventions of the embedding:
  \<^item> Python integers are unbounded, so they are \<open>int\<close> here, and the operators of
    Python on them are the bit operations of \<open>int\<close>: \<^verbatim>\<open>x << k\<close> is \<open>push_bit k x\<close> and
    \<^verbatim>\<open>x >> k\<close> is \<open>drop_bit k x\<close>.
  \<^item> An exception is a value \<open>Inl e\<close> of a sum type; \<^verbatim>\<open>assert\<close> statements are executed
    (the interpreter is not run with \<^verbatim>\<open>-O\<close>).
  \<^item> The class \<^verbatim>\<open>XOR\<close> defines no \<^verbatim>\<open>__eq__\<close>, so Python compares two \<^verbatim>\<open>XOR\<close> objects by
    identity. Every \<^verbatim>\<open>XOR\<close> node therefore carries the identity of its object (\<open>oid\<close>),
    and every function that constructs a node takes the next free identity and returns
    the one after it.
\<close>

subsection \<open>Expressions: \<^verbatim>\<open>Bit\<close> and \<^verbatim>\<open>XOR\<close>\<close>

type_synonym oid = nat

datatype expr =
    Bit string int
  | XOR_node oid "expr list"

datatype error =
    AssertionError
  | NameError
  | IndexError
  | TypeError
  | ValueError
  | UnboundLocalError
  | Exception string

text \<open>Sequencing of statements that may raise: the first exception ends the computation.\<close>

definition bind_error :: "error + 'a \<Rightarrow> ('a \<Rightarrow> error + 'b) \<Rightarrow> error + 'b" where
  "bind_error m f = (case m of Inl e \<Rightarrow> Inl e | Inr x \<Rightarrow> f x)"

fun is_Bit :: "expr \<Rightarrow> bool" where
  "is_Bit (Bit nm ix) = True"
| "is_Bit (XOR_node a its) = False"

fun is_XOR :: "expr \<Rightarrow> bool" where
  "is_XOR (Bit nm ix) = False"
| "is_XOR (XOR_node a its) = True"

text \<open>
  \<^verbatim>\<open>a == b\<close>: \<^verbatim>\<open>Bit.__eq__\<close> compares name and index and is false for a non-\<^verbatim>\<open>Bit\<close>;
  two \<^verbatim>\<open>XOR\<close> objects are equal only when they are the same object.
\<close>

fun py_eq :: "expr \<Rightarrow> expr \<Rightarrow> bool" where
  "py_eq (Bit nm ix) (Bit nm' ix') = (nm = nm' \<and> ix = ix')"
| "py_eq (XOR_node a its) (XOR_node b its') = (a = b)"
| "py_eq (Bit nm ix) (XOR_node b its') = False"
| "py_eq (XOR_node a its) (Bit nm' ix') = False"

text \<open>\<^verbatim>\<open>item in newItems\<close> on a Python list.\<close>

definition py_in :: "expr \<Rightarrow> expr list \<Rightarrow> bool" where
  "py_in item xs = list_ex (\<lambda>x. py_eq x item) xs"

text \<open>
  \<^verbatim>\<open>XOR.__init__(self, *items)\<close>: \<^verbatim>\<open>assert(len(items) >= 2)\<close>, then the node owns the
  items. The new object gets the identity \<open>n\<close>.
\<close>

definition XOR_init :: "expr list \<Rightarrow> oid \<Rightarrow> error + expr \<times> oid" where
  "XOR_init its n =
     (if 2 \<le> length its then Inr (XOR_node n its, Suc n) else Inl AssertionError)"

text \<open>\<^verbatim>\<open>allBitsRecursive\<close>: the leaves, left to right.\<close>

fun allBitsRecursive :: "expr \<Rightarrow> expr list" where
  "allBitsRecursive (Bit nm ix) = [Bit nm ix]"
| "allBitsRecursive (XOR_node a its) = concat (map allBitsRecursive its)"

text \<open>
  \<^verbatim>\<open>sum(1 if (isinstance(i, Bit) and i == item) else 0 for i in self.__items)\<close>
\<close>

definition bit_count :: "expr list \<Rightarrow> expr \<Rightarrow> nat" where
  "bit_count all_items item = length (filter (\<lambda>i. is_Bit i \<and> py_eq i item) all_items)"

text \<open>
  The loop of \<^verbatim>\<open>XOR.optimize\<close>: \<open>all_items\<close> is \<^verbatim>\<open>self.__items\<close>, the second argument
  what the loop has still to visit, \<open>newItems\<close> the list built so far.
\<close>

fun optimize_loop :: "expr list \<Rightarrow> expr list \<Rightarrow> expr list \<Rightarrow> expr list" where
  "optimize_loop all_items [] newItems = newItems"
| "optimize_loop all_items (item # rest) newItems =
     (if py_in item newItems then optimize_loop all_items rest newItems
      else if \<not> is_Bit item then optimize_loop all_items rest (newItems @ [item])
      else if bit_count all_items item mod 2 \<noteq> 0
        then optimize_loop all_items rest (newItems @ [item])
        else optimize_loop all_items rest newItems)"

text \<open>
  \<^verbatim>\<open>optimize\<close>: nothing on a \<^verbatim>\<open>Bit\<close>; on an \<^verbatim>\<open>XOR\<close> the object keeps its identity and
  its items are replaced.
\<close>

fun optimize :: "expr \<Rightarrow> expr" where
  "optimize (Bit nm ix) = Bit nm ix"
| "optimize (XOR_node a its) = XOR_node a (optimize_loop its its [])"


subsection \<open>\<^verbatim>\<open>Word\<close>\<close>

text \<open>
  A \<^verbatim>\<open>Word\<close> object holds the list \<^verbatim>\<open>self.__items\<close>, index 0 the least significant
  position. \<^verbatim>\<open>Word.__init__(self, *bits, MSB=True)\<close> reverses the bits it is given unless
  \<^verbatim>\<open>MSB\<close> is false.
\<close>

type_synonym Word = "expr list"

definition Word_init :: "expr list \<Rightarrow> bool \<Rightarrow> Word" where
  "Word_init bits MSB = (if MSB then rev bits else bits)"

text \<open>
  \<^verbatim>\<open>Word.__getitem__\<close> is Python's list indexing: a negative index counts from the end, an
  index out of range raises \<^verbatim>\<open>IndexError\<close>.
\<close>

definition Word_getitem :: "Word \<Rightarrow> int \<Rightarrow> error + expr" where
  "Word_getitem w i =
     (if 0 \<le> i \<and> i < int (length w) then Inr (w ! nat i)
      else if i < 0 \<and> - int (length w) \<le> i then Inr (w ! nat (int (length w) + i))
      else Inl IndexError)"

text \<open>
  \<^verbatim>\<open>Word.flatten\<close>. For an \<^verbatim>\<open>XOR\<close> item a new \<^verbatim>\<open>XOR\<close> object over the leaves is
  constructed (and its constructor asserts that there are two of them at least); the
  other branch appends the name \<^verbatim>\<open>bit\<close>, which is bound neither in the method nor in the
  module, so Python raises \<^verbatim>\<open>NameError\<close> there. \<^verbatim>\<open>self.__items\<close> is assigned after the
  loop only: when the loop raises, the word is unchanged.
\<close>

fun flatten_loop :: "expr list \<Rightarrow> expr list \<Rightarrow> oid \<Rightarrow> error + expr list \<times> oid" where
  "flatten_loop [] newItems n = Inr (newItems, n)"
| "flatten_loop (XOR_node a its # rest) newItems n =
     bind_error (XOR_init (allBitsRecursive (XOR_node a its)) n)
       (\<lambda>(x, n'). flatten_loop rest (newItems @ [x]) n')"
| "flatten_loop (Bit nm ix # rest) newItems n = Inl NameError"

definition flatten :: "Word \<Rightarrow> oid \<Rightarrow> error + Word \<times> oid" where
  "flatten w n = flatten_loop w [] n"

text \<open>
  \<^verbatim>\<open>Word.optimize\<close> calls \<^verbatim>\<open>optimize\<close> on every item in turn. Each call replaces the
  items of that one object; where the items of the word are distinct objects, or the same
  object more than once (\<^verbatim>\<open>optimize\<close> run again on its own result), this is the map
  below.
\<close>

definition Word_optimize :: "Word \<Rightarrow> Word" where
  "Word_optimize w = map optimize w"

subsection \<open>\<^verbatim>\<open>CrcGen\<close>\<close>

record CrcGen =
  CrcGen_P :: int
  CrcGen_nrBits :: int

text \<open>\<^verbatim>\<open>CrcGen.__init__(self, P=0x07, nrBits=8)\<close>: \<^verbatim>\<open>assert(P & 1)\<close>.\<close>

definition CrcGen_init :: "int \<Rightarrow> int \<Rightarrow> error + CrcGen" where
  "CrcGen_init P nrBits =
     (if P AND 1 \<noteq> 0 then Inr \<lparr>CrcGen_P = P, CrcGen_nrBits = nrBits\<rparr>
      else Inl AssertionError)"

text \<open>
  The local function \<^verbatim>\<open>p(a, b, bitNr)\<close> of \<^verbatim>\<open>__gen\<close>; \<^verbatim>\<open>a is None\<close> is the first
  equation. \<open>P\<close> is \<^verbatim>\<open>self.__P\<close>.
\<close>

fun p :: "int \<Rightarrow> expr option \<Rightarrow> expr \<Rightarrow> nat \<Rightarrow> oid \<Rightarrow> error + expr \<times> oid" where
  "p P None b bitNr n = Inr (b, n)"
| "p P (Some a) b bitNr n =
     (if drop_bit bitNr P AND 1 \<noteq> 0 then XOR_init [a, b] n else Inr (a, n))"

text \<open>
  \<^verbatim>\<open>[ XOR(inData[i], inCrc[i]) for i in reversed(range(8)) ]\<close>, the second argument being
  the indices still to visit.
\<close>

fun base_items :: "Word \<Rightarrow> Word \<Rightarrow> nat list \<Rightarrow> oid \<Rightarrow> error + expr list \<times> oid" where
  "base_items inData inCrc [] n = Inr ([], n)"
| "base_items inData inCrc (i # rest) n =
     bind_error (Word_getitem inData (int i)) (\<lambda>a.
     bind_error (Word_getitem inCrc (int i)) (\<lambda>b.
     bind_error (XOR_init [a, b] n) (\<lambda>(x, n').
     bind_error (base_items inData inCrc rest n') (\<lambda>(xs, n'').
     Inr (x # xs, n'')))))"

text \<open>
  One pass of the body of \<^verbatim>\<open>for i in range(8)\<close>. The first arguments Python evaluates
  are \<^verbatim>\<open>prevWord[6]\<close> and \<^verbatim>\<open>prevWord[7]\<close>: with fewer than 8 items one of them raises
  \<^verbatim>\<open>IndexError\<close> before any object is made; with 8 or more every index from 0 to 7 is in
  range. The eight calls of \<^verbatim>\<open>p\<close> run from left to right.
\<close>

definition gen_round :: "int \<Rightarrow> Word \<Rightarrow> oid \<Rightarrow> error + Word \<times> oid" where
  "gen_round P prevWord n =
     (if length prevWord < 8 then Inl IndexError
      else
        bind_error (p P (Some (prevWord ! 6)) (prevWord ! 7) 7 n) (\<lambda>(x7, n).
        bind_error (p P (Some (prevWord ! 5)) (prevWord ! 7) 6 n) (\<lambda>(x6, n).
        bind_error (p P (Some (prevWord ! 4)) (prevWord ! 7) 5 n) (\<lambda>(x5, n).
        bind_error (p P (Some (prevWord ! 3)) (prevWord ! 7) 4 n) (\<lambda>(x4, n).
        bind_error (p P (Some (prevWord ! 2)) (prevWord ! 7) 3 n) (\<lambda>(x3, n).
        bind_error (p P (Some (prevWord ! 1)) (prevWord ! 7) 2 n) (\<lambda>(x2, n).
        bind_error (p P (Some (prevWord ! 0)) (prevWord ! 7) 1 n) (\<lambda>(x1, n).
        bind_error (p P None (prevWord ! 7) 0 n) (\<lambda>(x0, n).
        Inr (Word_init [x7, x6, x5, x4, x3, x2, x1, x0] True, n))))))))))"

text \<open>The loop \<^verbatim>\<open>for i in range(8)\<close>, with the number of passes still to run.\<close>

fun gen_loop :: "nat \<Rightarrow> int \<Rightarrow> Word \<Rightarrow> oid \<Rightarrow> error + Word \<times> oid" where
  "gen_loop 0 P prevWord n = Inr (prevWord, n)"
| "gen_loop (Suc k) P prevWord n =
     bind_error (gen_round P prevWord n) (\<lambda>(word, n'). gen_loop k P word n')"

text \<open>
  \<^verbatim>\<open>CrcGen.__gen\<close> up to the end of its loop: the word that is handed to
  \<^verbatim>\<open>flatten\<close>.
\<close>

definition gen_unrolled :: "CrcGen \<Rightarrow> string \<Rightarrow> string \<Rightarrow> oid \<Rightarrow> error + Word \<times> oid" where
  "gen_unrolled self dataVarName crcVarName n =
     (if CrcGen_nrBits self \<noteq> 8 then Inl AssertionError
      else
        let inData = Word_init (map (\<lambda>i. Bit dataVarName (int i)) (rev [0..<8])) True;
            inCrc = Word_init (map (\<lambda>i. Bit crcVarName (int i)) (rev [0..<8])) True
        in bind_error (base_items inData inCrc (rev [0..<8]) n) (\<lambda>(bs, n').
           gen_loop 8 (CrcGen_P self) (Word_init bs True) n'))"

text \<open>\<^verbatim>\<open>CrcGen.__gen\<close>: the unrolling, then \<^verbatim>\<open>word.flatten()\<close> and \<^verbatim>\<open>word.optimize()\<close>.\<close>

definition gen :: "CrcGen \<Rightarrow> string \<Rightarrow> string \<Rightarrow> oid \<Rightarrow> error + Word \<times> oid" where
  "gen self dataVarName crcVarName n =
     bind_error (gen_unrolled self dataVarName crcVarName n) (\<lambda>(word, n').
     bind_error (flatten word n') (\<lambda>(word', n'').
     Inr (Word_optimize word', n'')))"


subsection \<open>The generated function and the reference \<^verbatim>\<open>crc8_ref\<close>\<close>

text \<open>
  \<^verbatim>\<open>genPython\<close> prints, for the item at position \<open>i\<close> of the word, the line
  \<^verbatim>\<open>ret = (e)\<close> when \<open>i\<close> is 0 and \<^verbatim>\<open>ret |= (e) << i\<close> otherwise, where \<^verbatim>\<open>e\<close> is the text
  \<^verbatim>\<open>item.py()\<close>, and then \<^verbatim>\<open>return ret\<close>. The functions below are the values Python
  computes for these texts.

  \<^verbatim>\<open>Bit.py\<close> prints \<^verbatim>\<open>((name >> index) & 1)\<close>, or \<^verbatim>\<open>(name & 1)\<close> when the index is 0;
  \<^verbatim>\<open>XOR.py\<close> prints the texts of its items, joined by \<^verbatim>\<open>^\<close>, in parentheses. With no
  item that text is \<^verbatim>\<open>()\<close>, the empty tuple, and with one item it is the item in
  parentheses. A variable is one of the two parameters of the generated function; any
  other name raises \<^verbatim>\<open>NameError\<close>, a shift by a negative count \<^verbatim>\<open>ValueError\<close>, and an
  operator applied to the tuple \<^verbatim>\<open>TypeError\<close>.
\<close>

datatype pyval = PyInt int | PyTuple

fun py_xor :: "pyval \<Rightarrow> pyval \<Rightarrow> error + pyval" where
  "py_xor (PyInt x) (PyInt y) = Inr (PyInt (x XOR y))"
| "py_xor v w = Inl TypeError"

fun py_or :: "pyval \<Rightarrow> pyval \<Rightarrow> error + pyval" where
  "py_or (PyInt x) (PyInt y) = Inr (PyInt (x OR y))"
| "py_or v w = Inl TypeError"

fun py_lshift :: "pyval \<Rightarrow> nat \<Rightarrow> error + pyval" where
  "py_lshift (PyInt x) i = Inr (PyInt (push_bit i x))"
| "py_lshift PyTuple i = Inl TypeError"

text \<open>\<^verbatim>\<open>(e1 ^ e2 ^ ... ^ ek)\<close>, from the values of the operands, evaluated from the left.\<close>

fun xor_join :: "(error + pyval) list \<Rightarrow> error + pyval" where
  "xor_join [] = Inr PyTuple"
| "xor_join (v # vs) =
     foldl (\<lambda>acc w. bind_error acc (\<lambda>x. bind_error w (\<lambda>y. py_xor x y))) v vs"

fun py_value :: "(string \<Rightarrow> int option) \<Rightarrow> expr \<Rightarrow> error + pyval" where
  "py_value env (Bit nm ix) =
     (case env nm of
        None \<Rightarrow> Inl NameError
      | Some v \<Rightarrow>
          if ix \<noteq> 0
          then (if ix < 0 then Inl ValueError else Inr (PyInt (drop_bit (nat ix) v AND 1)))
          else Inr (PyInt (v AND 1)))"
| "py_value env (XOR_node a its) = xor_join (map (py_value env) its)"

text \<open>
  The body of the generated function, over \<^verbatim>\<open>enumerate(word)\<close>; \<open>ret\<close> is \<open>None\<close> as long
  as the local variable \<^verbatim>\<open>ret\<close> is unbound.
\<close>

fun crc_body :: "(string \<Rightarrow> int option) \<Rightarrow> (nat \<times> expr) list \<Rightarrow> pyval option
    \<Rightarrow> error + pyval" where
  "crc_body env [] ret = (case ret of None \<Rightarrow> Inl UnboundLocalError | Some r \<Rightarrow> Inr r)"
| "crc_body env ((i, item) # rest) ret =
     (if i \<noteq> 0
      then (case ret of
              None \<Rightarrow> Inl UnboundLocalError
            | Some r \<Rightarrow>
                bind_error (py_value env item) (\<lambda>v.
                bind_error (py_lshift v i) (\<lambda>s.
                bind_error (py_or r s) (\<lambda>r'.
                crc_body env rest (Some r')))))
      else bind_error (py_value env item) (\<lambda>v. crc_body env rest (Some v)))"

text \<open>
  The generated function \<^verbatim>\<open>crc(crcVarName, dataVarName)\<close> called with the values \<open>c\<close>
  and \<open>d\<close>; the two parameter names are different (Python rejects a function with the
  same parameter twice).
\<close>

definition crc_py :: "Word \<Rightarrow> string \<Rightarrow> string \<Rightarrow> int \<Rightarrow> int \<Rightarrow> error + pyval" where
  "crc_py word crcVarName dataVarName c d =
     crc_body
       (\<lambda>nm. if nm = crcVarName then Some c else if nm = dataVarName then Some d else None)
       (zip [0..<length word] word) None"

text \<open>
  \<^verbatim>\<open>crc8_ref(crc, data, P)\<close>: \<^verbatim>\<open>data ^= crc\<close>, then eight times the statement
  \<^verbatim>\<open>data = ((data << 1) ^ (P if (data & 0x80) else 0)) & 0xFF\<close>, which is \<open>crc8_step\<close>.
\<close>

definition crc8_step :: "int \<Rightarrow> int \<Rightarrow> int" where
  "crc8_step data P = (push_bit 1 data XOR (if data AND 0x80 \<noteq> 0 then P else 0)) AND 0xFF"

fun crc8_ref_loop :: "nat \<Rightarrow> int \<Rightarrow> int \<Rightarrow> int" where
  "crc8_ref_loop 0 data P = data"
| "crc8_ref_loop (Suc k) data P = crc8_ref_loop k (crc8_step data P) P"

definition crc8_ref :: "int \<Rightarrow> int \<Rightarrow> int \<Rightarrow> int" where
  "crc8_ref crc data P = crc8_ref_loop 8 (data XOR crc) P"

subsection \<open>The boolean function an expression denotes\<close>

text \<open>
  Under an assignment \<open>env\<close> of truth values to the bits of the registers, a \<^verbatim>\<open>Bit\<close>
  denotes the value of its bit and an \<^verbatim>\<open>XOR\<close> the exclusive or of what its items denote
  (false for no item).
\<close>

fun xor_all :: "bool list \<Rightarrow> bool" where
  "xor_all [] = False"
| "xor_all (b # bs) = (b \<noteq> xor_all bs)"

fun denotes :: "(string \<Rightarrow> int \<Rightarrow> bool) \<Rightarrow> expr \<Rightarrow> bool" where
  "denotes env (Bit nm ix) = env nm ix"
| "denotes env (XOR_node a its) = xor_all (map (denotes env) its)"


subsection \<open>What the specification says \<^verbatim>\<open>XOR.optimize\<close> computes\<close>

text \<open>
  The operand at index \<open>i\<close> of \<open>L\<close> is a first occurrence when no operand before it is the
  same operand: the same name and index for two \<^verbatim>\<open>Bit\<close>s, the same object for two
  \<^verbatim>\<open>XOR\<close>s.
\<close>

definition first_occurrence :: "expr list \<Rightarrow> nat \<Rightarrow> bool" where
  "first_occurrence L i = (\<not> list_ex (\<lambda>x. py_eq x (L ! i)) (take i L))"

text \<open>
  The result as the specification words it: a \<^verbatim>\<open>Bit\<close> stays, once and at its first
  occurrence, when it occurs an odd number of times in \<open>L\<close>; each operand that is not a
  \<^verbatim>\<open>Bit\<close> stays, whatever else is in \<open>L\<close>.
\<close>

definition optimize_claimed :: "expr list \<Rightarrow> expr list" where
  "optimize_claimed L =
     map ((!) L)
       (filter (\<lambda>i. if is_Bit (L ! i) then first_occurrence L i \<and> odd (count_list L (L ! i))
                     else True)
          [0..<length L])"

text \<open>
  The same, except that an operand that is not a \<^verbatim>\<open>Bit\<close> stays at its first occurrence
  only: a second reference to the same \<^verbatim>\<open>XOR\<close> object is dropped.
\<close>

definition optimize_spec :: "expr list \<Rightarrow> expr list" where
  "optimize_spec L =
     map ((!) L)
       (filter (\<lambda>i. first_occurrence L i \<and> (is_Bit (L ! i) \<longrightarrow> odd (count_list L (L ! i))))
          [0..<length L])"

text \<open>No two items of a list are the same operand.\<close>

fun py_distinct :: "expr list \<Rightarrow> bool" where
  "py_distinct [] = True"
| "py_distinct (x # xs) = (\<not> py_in x xs \<and> py_distinct xs)"

subsection \<open>The printed texts\<close>

text \<open>
  \<^verbatim>\<open>"%d" % i\<close> and \<^verbatim>\<open>"%X" % i\<close> for an integer, \<^verbatim>\<open>sep.join(xs)\<close>, and \<^verbatim>\<open>s.upper()\<close> on a
  string of ASCII characters.
\<close>

fun dec_nat :: "nat \<Rightarrow> string" where
  "dec_nat k =
     (if k < 10 then [char_of (48 + k)] else dec_nat (k div 10) @ [char_of (48 + k mod 10)])"

definition fmt_d :: "int \<Rightarrow> string" where
  "fmt_d i = (if i < 0 then CHR ''-'' # dec_nat (nat (- i)) else dec_nat (nat i))"

definition hex_digit :: "nat \<Rightarrow> char" where
  "hex_digit k = (if k < 10 then char_of (48 + k) else char_of (55 + k))"

fun hex_nat :: "nat \<Rightarrow> string" where
  "hex_nat k = (if k < 16 then [hex_digit k] else hex_nat (k div 16) @ [hex_digit (k mod 16)])"

definition fmt_X :: "int \<Rightarrow> string" where
  "fmt_X i = (if i < 0 then CHR ''-'' # hex_nat (nat (- i)) else hex_nat (nat i))"

fun join :: "string \<Rightarrow> string list \<Rightarrow> string" where
  "join sep [] = []"
| "join sep [x] = x"
| "join sep (x # y # ys) = x @ sep @ join sep (y # ys)"

definition str_upper :: "string \<Rightarrow> string" where
  "str_upper s =
     map (\<lambda>ch. if 97 \<le> (of_char ch :: nat) \<and> (of_char ch :: nat) \<le> 122
               then char_of ((of_char ch :: nat) - 32) else ch) s"

text \<open>\<^verbatim>\<open>py()\<close> and \<^verbatim>\<open>verilog()\<close> of \<^verbatim>\<open>Bit\<close> and \<^verbatim>\<open>XOR\<close>.\<close>

fun py :: "expr \<Rightarrow> string" where
  "py (Bit nm ix) =
     (if ix \<noteq> 0 then ''(('' @ nm @ '' >> '' @ fmt_d ix @ '') & 1)''
      else ''('' @ nm @ '' & 1)'')"
| "py (XOR_node a its) = ''('' @ join '' ^ '' (map py its) @ '')''"

fun verilog :: "expr \<Rightarrow> string" where
  "verilog (Bit nm ix) = nm @ ''['' @ fmt_d ix @ '']''"
| "verilog (XOR_node a its) = ''('' @ join '' ^ '' (map verilog its) @ '')''"

text \<open>The lines of \<^verbatim>\<open>self.__header().splitlines()\<close>.\<close>

definition header_lines :: "string list" where
  "header_lines =
     [''THIS IS GENERATED CODE.'',
      ''This code is Public Domain.'',
      ''It can be used without any restrictions.'']"

text \<open>
  \<^verbatim>\<open>genPython\<close>, \<^verbatim>\<open>genVerilog\<close> and \<^verbatim>\<open>genC\<close>. Each calls \<^verbatim>\<open>__gen\<close> in its first
  statement and then collects the lines of the text, which it joins by a newline. The
  tabulator is \<open>CHR 0x09\<close>, the newline \<open>CHR 0x0A\<close>.
\<close>

definition genPython :: "CrcGen \<Rightarrow> string \<Rightarrow> string \<Rightarrow> string \<Rightarrow> oid \<Rightarrow> error + string \<times> oid"
  where
  "genPython self funcName crcVarName dataVarName n =
     bind_error (gen self dataVarName crcVarName n) (\<lambda>(word, n').
     Inr (join [CHR 0x0A]
       ([''# vim: ts=8 sw=8 noexpandtab'']
        @ map (\<lambda>l. ''# '' @ l) header_lines
        @ ['''',
           ''# polynomial = 0x'' @ fmt_X (CrcGen_P self),
           ''def '' @ funcName @ ''('' @ crcVarName @ '', '' @ dataVarName @ ''):'']
        @ map (\<lambda>(i, item).
                 if i \<noteq> 0
                 then [CHR 0x09] @ ''ret |= ('' @ py item @ '') << '' @ fmt_d (int i)
                 else [CHR 0x09] @ ''ret = ('' @ py item @ '')'')
            (zip [0..<length word] word)
        @ [[CHR 0x09] @ ''return ret'']), n'))"

definition genVerilog ::
    "CrcGen \<Rightarrow> bool \<Rightarrow> string \<Rightarrow> string \<Rightarrow> string \<Rightarrow> string \<Rightarrow> oid \<Rightarrow> error + string \<times> oid"
  where
  "genVerilog self genFunction nm inDataName inCrcName outCrcName n =
     bind_error (gen self inDataName inCrcName n) (\<lambda>(word, n').
     Inr (join [CHR 0x0A]
       ([''// vim: ts=4 sw=4 noexpandtab'']
        @ map (\<lambda>l. ''// '' @ l) header_lines
        @ ['''']
        @ (if \<not> genFunction
           then [''`ifndef '' @ str_upper nm @ ''_V_'', ''`define '' @ str_upper nm @ ''_V_'', '''']
           else [])
        @ [''// polynomial = 0x'' @ fmt_X (CrcGen_P self)]
        @ (if genFunction
           then [''function automatic ['' @ fmt_d (CrcGen_nrBits self - 1) @ '':0] '' @ nm @ '';'']
           else [''module '' @ nm @ '' (''])
        @ [[CHR 0x09] @ ''input ['' @ fmt_d (CrcGen_nrBits self - 1) @ '':0] '' @ inCrcName
             @ (if genFunction then '';'' else '',''),
           [CHR 0x09] @ ''input ['' @ fmt_d (CrcGen_nrBits self - 1) @ '':0] '' @ inDataName
             @ (if genFunction then '';'' else '','')]
        @ (if genFunction
           then [''begin'']
           else [[CHR 0x09] @ ''output ['' @ fmt_d (CrcGen_nrBits self - 1) @ '':0] ''
                   @ outCrcName @ '','',
                 '');''])
        @ map (\<lambda>(i, item).
                 [CHR 0x09] @ (if genFunction then '''' else ''assign '')
                 @ (if genFunction then nm else outCrcName)
                 @ ''['' @ fmt_d (int i) @ ''] = '' @ verilog item @ '';'')
            (zip [0..<length word] word)
        @ (if genFunction
           then [''end'', ''endfunction'']
           else [''endmodule'', '''', ''`endif // '' @ str_upper nm @ ''_V_''])), n'))"

definition genC ::
    "CrcGen \<Rightarrow> string \<Rightarrow> string \<Rightarrow> string \<Rightarrow> bool \<Rightarrow> bool \<Rightarrow> oid \<Rightarrow> error + string \<times> oid"
  where
  "genC self funcName crcVarName dataVarName static inline n =
     bind_error (gen self dataVarName crcVarName n) (\<lambda>(word, n').
     let cType = ''uint'' @ fmt_d (CrcGen_nrBits self) @ ''_t'' in
     Inr (join [CHR 0x0A]
       ([''// vim: ts=4 sw=4 noexpandtab'']
        @ map (\<lambda>l. ''// '' @ l) header_lines
        @ ['''',
           ''#ifndef '' @ str_upper funcName @ ''_H_'',
           ''#define '' @ str_upper funcName @ ''_H_'',
           '''',
           ''#include <stdint.h>'',
           '''',
           ''// polynomial = 0x'' @ fmt_X (CrcGen_P self),
           (if static then ''static '' else '''') @ (if inline then ''inline '' else '''')
             @ cType @ '' '' @ funcName @ ''('' @ cType @ '' '' @ crcVarName
             @ '', uint8_t '' @ dataVarName @ '')'',
           ''{'',
           [CHR 0x09] @ cType @ '' ret;'']
        @ map (\<lambda>(i, item).
                 if i \<noteq> 0
                 then [CHR 0x09] @ ''ret |= ('' @ py item @ '') << '' @ fmt_d (int i) @ '';''
                 else [CHR 0x09] @ ''ret = ('' @ py item @ '');'')
            (zip [0..<length word] word)
        @ [[CHR 0x09] @ ''return ret;'',
           ''}'',
           '''',
           ''#endif /* '' @ str_upper funcName @ ''_H_ */'']), n'))"

subsection \<open>The command line program\<close>

text \<open>
  The namespace that \<^verbatim>\<open>p.parse_args()\<close> returns. The parser accepts 8 only for
  \<^verbatim>\<open>--nr-bits\<close> and at most one of the four output options.
\<close>

record args =
  args_python :: bool
  args_verilog_function :: bool
  args_verilog_module :: bool
  args_c :: bool
  args_polynomial :: int
  args_nr_bits :: int
  args_name :: string
  args_data_param :: string
  args_crc_in_param :: string
  args_crc_out_param :: string
  args_static :: bool
  args_inline :: bool
  args_test :: bool

text \<open>
  The test loops over \<^verbatim>\<open>c\<close> and \<^verbatim>\<open>d\<close>, as the list of the pairs in the order of the
  loops: the first pair on which the generated function raises or differs from
  \<^verbatim>\<open>crc8_ref\<close> ends the run.
\<close>

fun test_loop :: "Word \<Rightarrow> int \<Rightarrow> (int \<times> int) list \<Rightarrow> error option" where
  "test_loop word P [] = None"
| "test_loop word P ((c, d) # rest) =
     (case crc_py word ''crc'' ''data'' c d of
        Inl e \<Rightarrow> Some e
      | Inr v \<Rightarrow>
          if PyInt (crc8_ref c d P) \<noteq> v then Some (Exception ''Test failed.'')
          else test_loop word P rest)"

text \<open>
  The body of the \<^verbatim>\<open>try\<close> statement after parsing. The result is the list of the texts
  printed to the standard output and the exception that ended the run, if any: with
  \<open>None\<close> the program exits with status 0, with \<open>Some e\<close> the handler prints
  \<^verbatim>\<open>ERROR:\<close> and the message of \<open>e\<close> to the standard error and exits with status 1.
  \<^verbatim>\<open>1 << nr_bits\<close> raises \<^verbatim>\<open>ValueError\<close> for a negative count, and is evaluated only
  when the polynomial is odd. In test mode \<^verbatim>\<open>exec\<close> defines the function that
  \<^verbatim>\<open>genPython()\<close> has printed with its default names; \<open>crc_py\<close> is the value of that
  function.
\<close>

definition main :: "args \<Rightarrow> oid \<Rightarrow> string list \<times> error option" where
  "main a n =
     (if \<not> (args_polynomial a AND 1 \<noteq> 0) then ([], Some (Exception ''Invalid polynomial.''))
      else if args_nr_bits a < 0 then ([], Some ValueError)
      else if args_polynomial a > push_bit (nat (args_nr_bits a)) 1 - 1
        then ([], Some (Exception ''Invalid polynomial.''))
      else
        case CrcGen_init (args_polynomial a) (args_nr_bits a) of
          Inl e \<Rightarrow> ([], Some e)
        | Inr g \<Rightarrow>
            if args_test a then
              (case genPython g ''crc'' ''crc'' ''data'' n of
                 Inl e \<Rightarrow> ([], Some e)
               | Inr (pyCode, n') \<Rightarrow>
                   (case gen g ''data'' ''crc'' n of
                      Inl e \<Rightarrow> ([], Some e)
                    | Inr (word, n'') \<Rightarrow>
                        (case test_loop word (args_polynomial a)
                                (List.product (map int [0..<256]) (map int [0..<256])) of
                           Some e \<Rightarrow> ([''Testing...''], Some e)
                         | None \<Rightarrow> ([''Testing...'', ''done.''], None))))
            else if args_python a then
              (case genPython g (args_name a) (args_crc_in_param a) (args_data_param a) n of
                 Inl e \<Rightarrow> ([], Some e)
               | Inr (txt, n') \<Rightarrow> ([txt], None))
            else if args_verilog_function a then
              (case genVerilog g True (args_name a) (args_data_param a) (args_crc_in_param a)
                      (args_crc_out_param a) n of
                 Inl e \<Rightarrow> ([], Some e)
               | Inr (txt, n') \<Rightarrow> ([txt], None))
            else if args_verilog_module a then
              (case genVerilog g False (args_name a) (args_data_param a) (args_crc_in_param a)
                      (args_crc_out_param a) n of
                 Inl e \<Rightarrow> ([], Some e)
               | Inr (txt, n') \<Rightarrow> ([txt], None))
            else if args_c a then
              (case genC g (args_name a) (args_crc_in_param a) (args_data_param a)
                      (args_static a) (args_inline a) n of
                 Inl e \<Rightarrow> ([], Some e)
               | Inr (txt, n') \<Rightarrow> ([txt], None))
            else ([], None))"

subsection \<open>Notions used to state the properties\<close>

text \<open>
  An expression as the constructors make it: every \<^verbatim>\<open>XOR\<close> node in it has two items at
  least. (\<^verbatim>\<open>optimize\<close> can leave a node with fewer items.)
\<close>

fun well_formed :: "expr \<Rightarrow> bool" where
  "well_formed (Bit nm ix) = True"
| "well_formed (XOR_node a its) = (2 \<le> length its \<and> list_all well_formed its)"

text \<open>
  \<open>combined P k a b x\<close>: the expression \<open>x\<close> is what the specification calls
  \<open>combine(a, b, tapBit = k)\<close>, that is an \<^verbatim>\<open>XOR\<close> node of \<open>a\<close> and \<open>b\<close> when bit \<open>k\<close>
  of the polynomial is set and \<open>a\<close> itself otherwise.
\<close>

definition combined :: "int \<Rightarrow> nat \<Rightarrow> expr \<Rightarrow> expr \<Rightarrow> expr \<Rightarrow> bool" where
  "combined P k a b x =
     (if bit P k then (case x of XOR_node i its \<Rightarrow> its = [a, b] | Bit nm ix \<Rightarrow> False)
      else x = a)"

text \<open>
  \<open>round_of P prev new\<close>: the word \<open>new\<close> is derived from \<open>prev\<close> by one round as the
  specification describes it: \<open>new[i] = combine(prev[i-1], prev[7], tapBit = i)\<close> for the
  positions 7 down to 1, and \<open>new[0] = prev[7]\<close>.
\<close>

definition round_of :: "int \<Rightarrow> Word \<Rightarrow> Word \<Rightarrow> bool" where
  "round_of P prev new =
     (length new = 8 \<and> new ! 0 = prev ! 7 \<and>
      list_all (\<lambda>i. combined P i (prev ! (i - 1)) (prev ! 7) (new ! i)) (rev [1..<8]))"

text \<open>
  The unrolling as the specification describes it, on expressions without object
  identities: the base word, \<open>combine\<close>, one round, and eight rounds from the base word.
  \<open>erase\<close> forgets the identities of an expression of the program.
\<close>

datatype shape = SBit string int | SXor "shape list"

fun erase :: "expr \<Rightarrow> shape" where
  "erase (Bit nm ix) = SBit nm ix"
| "erase (XOR_node a its) = SXor (map erase its)"

definition spec_base :: "string \<Rightarrow> string \<Rightarrow> shape list" where
  "spec_base dataName crcName =
     map (\<lambda>i. SXor [SBit dataName (int i), SBit crcName (int i)]) [0..<8]"

definition spec_combine :: "int \<Rightarrow> shape \<Rightarrow> shape \<Rightarrow> nat \<Rightarrow> shape" where
  "spec_combine P a b tapBit = (if bit P tapBit then SXor [a, b] else a)"

definition spec_round :: "int \<Rightarrow> shape list \<Rightarrow> shape list" where
  "spec_round P prev =
     prev ! 7 # map (\<lambda>i. spec_combine P (prev ! (i - 1)) (prev ! 7) i) [1..<8]"

definition spec_unrolled :: "int \<Rightarrow> string \<Rightarrow> string \<Rightarrow> shape list" where
  "spec_unrolled P dataName crcName = (spec_round P ^^ 8) (spec_base dataName crcName)"


text \<open>
  The assignment of truth values to the bits of the two registers when the register
  \<open>crcVarName\<close> holds the integer \<open>c\<close> and the register \<open>dataVarName\<close> the integer \<open>d\<close>.
\<close>

definition bit_env :: "string \<Rightarrow> string \<Rightarrow> int \<Rightarrow> int \<Rightarrow> string \<Rightarrow> int \<Rightarrow> bool" where
  "bit_env crcVarName dataVarName c d nm ix =
     (if nm = crcVarName then bit c (nat ix)
      else if nm = dataVarName then bit d (nat ix) else False)"

text \<open>A \<^verbatim>\<open>Bit\<close> of one of the two registers, with an index that is not negative.\<close>

fun reads_register :: "string \<Rightarrow> string \<Rightarrow> expr \<Rightarrow> bool" where
  "reads_register crcVarName dataVarName (Bit nm ix) =
     ((nm = crcVarName \<or> nm = dataVarName) \<and> 0 \<le> ix)"
| "reads_register crcVarName dataVarName (XOR_node a its) = False"

section \<open>Properties\<close>

subsection \<open>Equality of operands\<close>

lemma py_eq_refl: "py_eq x x"
  by (cases x) auto

lemma py_eq_sym: "py_eq x y \<Longrightarrow> py_eq y x"
  by (cases x; cases y) auto

lemma py_eq_trans: "py_eq x y \<Longrightarrow> py_eq y z \<Longrightarrow> py_eq x z"
  by (cases x; cases y; cases z) auto

lemma py_eq_Bit_right: "is_Bit y \<Longrightarrow> py_eq x y = (x = y)"
  by (cases x; cases y) auto

lemma py_eq_same_kind: "py_eq x y \<Longrightarrow> is_Bit x = is_Bit y"
  by (cases x; cases y) auto

lemma py_eq_right_cong: "py_eq x y \<Longrightarrow> py_eq i x = py_eq i y"
  by (cases x; cases y; cases i) auto

lemma py_in_iff: "py_in x xs \<longleftrightarrow> (\<exists>y\<in>set xs. py_eq y x)"
  by (simp add: py_in_def list_ex_iff)

lemma py_in_append: "py_in x (xs @ ys) \<longleftrightarrow> py_in x xs \<or> py_in x ys"
  by (auto simp: py_in_iff)

lemma bit_count_cong: "py_eq x y \<Longrightarrow> bit_count L x = bit_count L y"
  unfolding bit_count_def by (simp add: py_eq_right_cong cong: filter_cong)

lemma bit_count_Bit: "is_Bit x \<Longrightarrow> bit_count L x = count_list L x"
proof -
  assume b: "is_Bit x"
  have "filter (\<lambda>i. is_Bit i \<and> py_eq i x) L = filter ((=) x) L"
    by (rule filter_cong) (auto simp: py_eq_Bit_right [OF b] b)
  then show ?thesis
    by (simp add: bit_count_def count_list_eq_length_filter)
qed

subsection \<open>\<^verbatim>\<open>XOR.optimize\<close> keeps first occurrences by parity\<close>

lemma first_occurrence_iff:
  assumes "i < length L"
  shows "first_occurrence L i \<longleftrightarrow> (\<forall>j<i. \<not> py_eq (L ! j) (L ! i))"
proof -
  have "set (take i L) = {L ! j | j. j < i}"
    using assms by (auto simp: in_set_conv_nth) (metis nth_take)+
  then show ?thesis
    by (auto simp: first_occurrence_def list_ex_iff)
qed

lemma earlier_first_occurrence:
  assumes "j < k" and "k < length L" and "py_eq (L ! j) (L ! k)"
  shows "\<exists>i<k. first_occurrence L i \<and> py_eq (L ! i) (L ! k)"
proof -
  define m where "m = (LEAST j. j < k \<and> py_eq (L ! j) (L ! k))"
  have m: "m < k \<and> py_eq (L ! m) (L ! k)"
    unfolding m_def
    by (rule LeastI [of "\<lambda>j. j < k \<and> py_eq (L ! j) (L ! k)" j]) (use assms in simp)
  have "\<forall>j'<m. \<not> py_eq (L ! j') (L ! m)"
  proof (intro allI impI notI)
    fix j'
    assume "j' < m" and "py_eq (L ! j') (L ! m)"
    then have "j' < k \<and> py_eq (L ! j') (L ! k)"
      using m py_eq_trans by (meson less_trans)
    then have "m \<le> j'"
      unfolding m_def by (rule Least_le)
    with \<open>j' < m\<close> show False by simp
  qed
  moreover have "m < length L"
    using m assms(2) by simp
  ultimately have "first_occurrence L m"
    by (simp add: first_occurrence_iff)
  with m show ?thesis by blast
qed

lemma optimize_loop_prefix:
  assumes "L = pre @ xs"
    and "newItems =
      map ((!) L)
        (filter (\<lambda>i. first_occurrence L i \<and> (is_Bit (L ! i) \<longrightarrow> odd (count_list L (L ! i))))
           [0..<length pre])"
  shows "optimize_loop L xs newItems = optimize_spec L"
  using assms
proof (induction xs arbitrary: pre newItems)
  case Nil
  then show ?case by (simp add: optimize_spec_def)
next
  case (Cons item rest)
  let ?k = "length pre"
  let ?stays = "\<lambda>i. first_occurrence L i \<and> (is_Bit (L ! i) \<longrightarrow> odd (count_list L (L ! i)))"
  have item: "L ! ?k = item" and k: "?k < length L"
    using Cons.prems by simp_all
  have L': "L = (pre @ [item]) @ rest"
    using Cons.prems by simp
  have in_iff: "py_in item newItems \<longleftrightarrow> (\<exists>i<?k. ?stays i \<and> py_eq (L ! i) item)"
    unfolding py_in_def Cons.prems(2) list_ex_iff by auto
  have upt: "[0..<length (pre @ [item])] = [0..<?k] @ [?k]"
    by simp
  have odd_iff: "is_Bit item \<Longrightarrow> bit_count L item mod 2 \<noteq> 0 \<longleftrightarrow> odd (count_list L item)"
    by (simp add: bit_count_Bit odd_iff_mod_2_eq_one)
  show ?case
  proof (cases "py_in item newItems")
    case True
    then have "\<not> first_occurrence L ?k"
      using in_iff item k by (auto simp: first_occurrence_iff)
    then have "newItems = map ((!) L) (filter ?stays [0..<length (pre @ [item])])"
      unfolding upt using Cons.prems(2) by simp
    from Cons.IH [OF L' this] True show ?thesis by simp
  next
    case False
    show ?thesis
    proof (cases "is_Bit item \<longrightarrow> odd (count_list L item)")
      case stays: True
      have "first_occurrence L ?k"
      proof (rule ccontr)
        assume "\<not> first_occurrence L ?k"
        then obtain j where "j < ?k" and "py_eq (L ! j) (L ! ?k)"
          using k by (auto simp: first_occurrence_iff)
        from earlier_first_occurrence [OF this(1) k this(2)]
        obtain i where i: "i < ?k" "first_occurrence L i" "py_eq (L ! i) (L ! ?k)"
          by blast
        have "is_Bit (L ! i) \<longrightarrow> odd (count_list L (L ! i))"
        proof
          assume b: "is_Bit (L ! i)"
          then have "is_Bit item"
            using py_eq_same_kind [OF i(3)] item by simp
          then have "L ! i = item"
            using i(3) item by (simp add: py_eq_Bit_right)
          with stays \<open>is_Bit item\<close> show "odd (count_list L (L ! i))" by simp
        qed
        with i in_iff item False show False by auto
      qed
      then have "newItems @ [item] = map ((!) L) (filter ?stays [0..<length (pre @ [item])])"
        unfolding upt using Cons.prems(2) stays item by simp
      from Cons.IH [OF L' this] False stays odd_iff show ?thesis by auto
    next
      case goes: False
      then have "newItems = map ((!) L) (filter ?stays [0..<length (pre @ [item])])"
        unfolding upt using Cons.prems(2) item by simp
      from Cons.IH [OF L' this] False goes odd_iff show ?thesis by auto
    qed
  qed
qed

lemma optimize_loop_spec: "optimize_loop L L [] = optimize_spec L"
  by (rule optimize_loop_prefix [where pre = "[]"]) simp_all

subsection \<open>\<^verbatim>\<open>XOR.optimize\<close> run twice\<close>

lemma py_distinct_append:
  "py_distinct (xs @ ys) \<longleftrightarrow>
     py_distinct xs \<and> py_distinct ys \<and> (\<forall>x\<in>set xs. \<not> py_in x ys)"
  by (induction xs) (auto simp: py_in_append)

lemma py_distinct_snoc: "py_distinct (xs @ [x]) \<longleftrightarrow> py_distinct xs \<and> \<not> py_in x xs"
  unfolding py_distinct_append by (auto simp: py_in_iff dest: py_eq_sym)

lemma optimize_loop_distinct:
  "py_distinct newItems \<Longrightarrow> py_distinct (optimize_loop L xs newItems)"
  by (induction L xs newItems rule: optimize_loop.induct) (auto simp: py_distinct_snoc)

lemma bit_count_distinct:
  "py_distinct R \<Longrightarrow> b \<in> set R \<Longrightarrow> is_Bit b \<Longrightarrow> bit_count R b = 1"
proof (induction R)
  case Nil
  then show ?case by simp
next
  case (Cons x R)
  show ?case
  proof (cases "x = b")
    case True
    with Cons.prems have "\<forall>y\<in>set R. \<not> py_eq y b"
      by (auto simp: py_in_iff)
    then have "filter (\<lambda>i. is_Bit i \<and> py_eq i b) R = []"
      by (auto simp: filter_empty_conv)
    with True Cons.prems show ?thesis
      by (simp add: bit_count_def py_eq_refl)
  next
    case False
    with Cons.prems have "b \<in> set R" and "py_distinct R"
      by auto
    with Cons.IH Cons.prems have "bit_count R b = 1"
      by simp
    moreover have "\<not> py_eq x b"
      using False Cons.prems(3) by (simp add: py_eq_Bit_right)
    ultimately show ?thesis
      by (simp add: bit_count_def)
  qed
qed

lemma optimize_loop_keeps_all:
  "py_distinct (newItems @ xs) \<Longrightarrow> \<forall>x\<in>set xs. is_Bit x \<longrightarrow> bit_count L x mod 2 \<noteq> 0
   \<Longrightarrow> optimize_loop L xs newItems = newItems @ xs"
proof (induction L xs newItems rule: optimize_loop.induct)
  case (1 L newItems)
  then show ?case by simp
next
  case (2 L item rest newItems)
  from "2.prems"(1) have d: "py_distinct ((newItems @ [item]) @ rest)"
    by simp
  from "2.prems"(1) have nin: "\<not> py_in item newItems"
    by (auto simp: py_distinct_append py_in_iff dest: py_eq_sym)
  from "2.prems"(2) have r: "\<forall>x\<in>set rest. is_Bit x \<longrightarrow> bit_count L x mod 2 \<noteq> 0"
    by simp
  show ?case
  proof (cases "is_Bit item")
    case True
    with "2.prems"(2) have odd: "bit_count L item mod 2 \<noteq> 0"
      by simp
    have "optimize_loop L rest (newItems @ [item]) = (newItems @ [item]) @ rest"
      using "2.IH"(3) nin True odd d r by blast
    with True nin odd show ?thesis by simp
  next
    case False
    have "optimize_loop L rest (newItems @ [item]) = (newItems @ [item]) @ rest"
      using "2.IH"(2) nin False d r by blast
    with False nin show ?thesis by simp
  qed
qed

lemma optimize_loop_twice:
  "optimize_loop (optimize_loop L L []) (optimize_loop L L []) [] = optimize_loop L L []"
proof -
  let ?R = "optimize_loop L L []"
  have d: "py_distinct ?R"
    by (rule optimize_loop_distinct) simp
  have "\<forall>x\<in>set ?R. is_Bit x \<longrightarrow> bit_count ?R x mod 2 \<noteq> 0"
    using bit_count_distinct [OF d] by simp
  with optimize_loop_keeps_all [of "[]" ?R ?R] d show ?thesis by simp
qed


subsection \<open>Claims about \<^verbatim>\<open>XOR\<close>\<close>

text \<open>
  C10. Constructing an \<^verbatim>\<open>XOR\<close> node from fewer than two items fails at once with the
  assertion of the constructor, and constructing it from two or more items succeeds and
  yields a node that owns exactly these items.
\<close>

theorem XOR_init_two_items:
  "(length its < 2 \<longrightarrow> XOR_init its n = Inl AssertionError) \<and>
   (2 \<le> length its \<longrightarrow> XOR_init its n = Inr (XOR_node n its, Suc n))"
  by (simp add: XOR_init_def)

theorem XOR_init_two_items_witness:
  "XOR_init [Bit ''data'' 0] 5 = Inl AssertionError \<and>
   XOR_init [Bit ''data'' 0, Bit ''crc'' 0] 5 =
     Inr (XOR_node 5 [Bit ''data'' 0, Bit ''crc'' 0], 6)"
  using XOR_init_two_items [of "[Bit ''data'' 0]" 5]
    XOR_init_two_items [of "[Bit ''data'' 0, Bit ''crc'' 0]" 5]
  by simp

text \<open>
  C6. \<^verbatim>\<open>optimize\<close> is idempotent: on every expression, whatever its operands are, a second
  call leaves the operand list as the first call made it.
\<close>

theorem optimize_idempotent: "optimize (optimize e) = optimize e"
  by (cases e) (simp_all add: optimize_loop_twice)

text \<open>
  C3, as the code has it. \<^verbatim>\<open>XOR.optimize\<close> on the operand list \<open>L\<close> keeps exactly the
  first occurrences, in the order of \<open>L\<close>, of the \<^verbatim>\<open>Bit\<close>s that occur an odd number of
  times in \<open>L\<close> and of the operands that are not a \<^verbatim>\<open>Bit\<close>. Two \<^verbatim>\<open>Bit\<close>s are the same
  operand when name and index agree; two other operands are the same when they are the
  same object, so that a repeated reference to one \<^verbatim>\<open>XOR\<close> object is kept once, and two
  different objects are both kept even when they have the same items.
\<close>

theorem optimize_first_occurrence_parity:
  "optimize (XOR_node a L) = XOR_node a (optimize_spec L)"
  by (simp add: optimize_loop_spec)

theorem optimize_first_occurrence_parity_witness:
  "optimize (XOR_node 3
     [Bit ''d'' 1, XOR_node 1 [Bit ''c'' 0, Bit ''c'' 1], Bit ''d'' 0, Bit ''d'' 1,
      XOR_node 2 [Bit ''c'' 0, Bit ''c'' 1], Bit ''d'' 1,
      XOR_node 1 [Bit ''c'' 0, Bit ''c'' 1], Bit ''d'' 0])
   = XOR_node 3
     [Bit ''d'' 1, XOR_node 1 [Bit ''c'' 0, Bit ''c'' 1], XOR_node 2 [Bit ''c'' 0, Bit ''c'' 1]]"
proof -
  have "optimize_spec
     [Bit ''d'' 1, XOR_node 1 [Bit ''c'' 0, Bit ''c'' 1], Bit ''d'' 0, Bit ''d'' 1,
      XOR_node 2 [Bit ''c'' 0, Bit ''c'' 1], Bit ''d'' 1,
      XOR_node 1 [Bit ''c'' 0, Bit ''c'' 1], Bit ''d'' 0]
     = [Bit ''d'' 1, XOR_node 1 [Bit ''c'' 0, Bit ''c'' 1], XOR_node 2 [Bit ''c'' 0, Bit ''c'' 1]]"
    by code_simp
  with optimize_first_occurrence_parity [of 3
     "[Bit ''d'' 1, XOR_node 1 [Bit ''c'' 0, Bit ''c'' 1], Bit ''d'' 0, Bit ''d'' 1,
      XOR_node 2 [Bit ''c'' 0, Bit ''c'' 1], Bit ''d'' 1,
      XOR_node 1 [Bit ''c'' 0, Bit ''c'' 1], Bit ''d'' 0]"]
  show ?thesis by (simp only:)
qed

text \<open>
  C3, as the specification words it, fails: with \<^verbatim>\<open>x = XOR(Bit("c", 0), Bit("c", 1))\<close> the
  node \<^verbatim>\<open>XOR(x, x)\<close> has two operands that are not a \<^verbatim>\<open>Bit\<close>, and \<^verbatim>\<open>optimize\<close> keeps one
  of them only, since \<^verbatim>\<open>x in newItems\<close> holds for the second.
\<close>

theorem optimize_keeps_every_non_Bit_counterexample:
  "optimize (XOR_node 2 [XOR_node 1 [Bit ''c'' 0, Bit ''c'' 1], XOR_node 1 [Bit ''c'' 0, Bit ''c'' 1]])
   \<noteq> XOR_node 2
     (optimize_claimed [XOR_node 1 [Bit ''c'' 0, Bit ''c'' 1], XOR_node 1 [Bit ''c'' 0, Bit ''c'' 1]])"
  by code_simp

subsection \<open>The rounds of \<^verbatim>\<open>__gen\<close>\<close>

lemma bind_error_Inl [simp]: "bind_error (Inl e) f = Inl e"
  by (simp add: bind_error_def)

lemma bind_error_Inr [simp]: "bind_error (Inr x) f = f x"
  by (simp add: bind_error_def)

lemma tap_iff: "drop_bit k P AND 1 \<noteq> 0 \<longleftrightarrow> bit (P::int) k"
  by (simp add: bit_iff_odd_drop_bit and_one_eq mod_2_eq_odd)

lemma p_Some:
  "p P (Some a) b k n =
     Inr (if bit P k then XOR_node n [a, b] else a, if bit P k then Suc n else n)"
  by (simp add: tap_iff XOR_init_def)

declare p.simps [simp del]

lemma p_combined: "\<exists>x n'. p P (Some a) b k n = Inr (x, n') \<and> combined P k a b x"
  by (simp add: p_Some combined_def)

lemma gen_round_shape:
  assumes "8 \<le> length w"
  shows "\<exists>x1 x2 x3 x4 x5 x6 x7 n'.
     gen_round P w n = Inr ([w ! 7, x1, x2, x3, x4, x5, x6, x7], n') \<and>
     combined P 1 (w ! 0) (w ! 7) x1 \<and> combined P 2 (w ! 1) (w ! 7) x2 \<and>
     combined P 3 (w ! 2) (w ! 7) x3 \<and> combined P 4 (w ! 3) (w ! 7) x4 \<and>
     combined P 5 (w ! 4) (w ! 7) x5 \<and> combined P 6 (w ! 5) (w ! 7) x6 \<and>
     combined P 7 (w ! 6) (w ! 7) x7"
proof -
  obtain x7 n7 where 7: "p P (Some (w ! 6)) (w ! 7) 7 n = Inr (x7, n7)" "combined P 7 (w ! 6) (w ! 7) x7"
    using p_combined by blast
  obtain x6 n6 where 6: "p P (Some (w ! 5)) (w ! 7) 6 n7 = Inr (x6, n6)" "combined P 6 (w ! 5) (w ! 7) x6"
    using p_combined by blast
  obtain x5 n5 where 5: "p P (Some (w ! 4)) (w ! 7) 5 n6 = Inr (x5, n5)" "combined P 5 (w ! 4) (w ! 7) x5"
    using p_combined by blast
  obtain x4 n4 where 4: "p P (Some (w ! 3)) (w ! 7) 4 n5 = Inr (x4, n4)" "combined P 4 (w ! 3) (w ! 7) x4"
    using p_combined by blast
  obtain x3 n3 where 3: "p P (Some (w ! 2)) (w ! 7) 3 n4 = Inr (x3, n3)" "combined P 3 (w ! 2) (w ! 7) x3"
    using p_combined by blast
  obtain x2 n2 where 2: "p P (Some (w ! 1)) (w ! 7) 2 n3 = Inr (x2, n2)" "combined P 2 (w ! 1) (w ! 7) x2"
    using p_combined by blast
  obtain x1 n1 where 1: "p P (Some (w ! 0)) (w ! 7) 1 n2 = Inr (x1, n1)" "combined P 1 (w ! 0) (w ! 7) x1"
    using p_combined by blast
  have "gen_round P w n = Inr ([w ! 7, x1, x2, x3, x4, x5, x6, x7], n1)"
    using assms by (simp add: gen_round_def 7(1) 6(1) 5(1) 4(1) 3(1) 2(1) 1(1) Word_init_def p.simps(1) del: One_nat_def)
  with 1 2 3 4 5 6 7 show ?thesis by blast
qed

lemma base_items_gen:
  "base_items (Word_init (map (\<lambda>i. Bit d (int i)) (rev [0..<8])) True)
     (Word_init (map (\<lambda>i. Bit c (int i)) (rev [0..<8])) True) (rev [0..<8]) n =
   Inr ([XOR_node n [Bit d 7, Bit c 7], XOR_node (n + 1) [Bit d 6, Bit c 6],
         XOR_node (n + 2) [Bit d 5, Bit c 5], XOR_node (n + 3) [Bit d 4, Bit c 4],
         XOR_node (n + 4) [Bit d 3, Bit c 3], XOR_node (n + 5) [Bit d 2, Bit c 2],
         XOR_node (n + 6) [Bit d 1, Bit c 1], XOR_node (n + 7) [Bit d 0, Bit c 0]], n + 8)"
proof -
  have u: "[0..<8] = [0, 1, 2, 3, 4, 5, 6, 7::nat]"
    by (simp add: upt_rec)
  show ?thesis
    unfolding u by (simp add: Word_init_def Word_getitem_def XOR_init_def)
qed

lemma gen_round_round_of:
  assumes "8 \<le> length w"
  shows "\<exists>w' n'. gen_round P w n = Inr (w', n') \<and> round_of P w w'"
proof -
  from gen_round_shape [OF assms, of P n]
  obtain x1 x2 x3 x4 x5 x6 x7 n' where
    r: "gen_round P w n = Inr ([w ! 7, x1, x2, x3, x4, x5, x6, x7], n')" and
    c: "combined P 1 (w ! 0) (w ! 7) x1" "combined P 2 (w ! 1) (w ! 7) x2"
       "combined P 3 (w ! 2) (w ! 7) x3" "combined P 4 (w ! 3) (w ! 7) x4"
       "combined P 5 (w ! 4) (w ! 7) x5" "combined P 6 (w ! 5) (w ! 7) x6"
       "combined P 7 (w ! 6) (w ! 7) x7"
    by blast
  have u: "[1..<8] = [1, 2, 3, 4, 5, 6, 7::nat]"
    by (simp add: upt_rec)
  have "round_of P w [w ! 7, x1, x2, x3, x4, x5, x6, x7]"
    unfolding round_of_def u using c by simp
  with r show ?thesis by blast
qed

lemma round_of_nth:
  assumes "round_of P u v" and "1 \<le> i" and "i < 8"
  shows "combined P i (u ! (i - 1)) (u ! 7) (v ! i)"
proof -
  have "i \<in> set (rev [1..<8])" using assms by simp
  with assms(1) show ?thesis
    unfolding round_of_def list_all_iff by blast
qed

lemma gen_loop_invariant:
  assumes "I j w" and "length w = 8"
    and step: "\<And>j u v. I j u \<Longrightarrow> length u = 8 \<Longrightarrow> round_of P u v \<Longrightarrow> I (Suc j) v"
  shows "\<exists>w' n'. gen_loop k P w n = Inr (w', n') \<and> I (j + k) w' \<and> length w' = 8"
  using assms(1,2)
proof (induction k arbitrary: j w n)
  case 0
  then show ?case by simp
next
  case (Suc k)
  from gen_round_round_of [of w P n] Suc.prems
  obtain w1 n1 where r: "gen_round P w n = Inr (w1, n1)" "round_of P w w1"
    by auto
  then have "I (Suc j) w1" and "length w1 = 8"
    using step Suc.prems by (auto simp: round_of_def)
  from Suc.IH [OF this, of n1] r(1) show ?case by simp
qed

subsection \<open>\<^verbatim>\<open>flatten\<close> succeeds on the word that \<^verbatim>\<open>__gen\<close> builds\<close>

lemma leaves_nonempty: "well_formed e \<Longrightarrow> allBitsRecursive e \<noteq> []"
proof (induction e)
  case (Bit nm ix)
  then show ?case by simp
next
  case (XOR_node a its)
  then obtain x rest where its: "its = x # rest"
    by (cases its) auto
  with XOR_node show ?case by simp
qed

lemma two_leaves:
  assumes "well_formed (XOR_node a its)"
  shows "2 \<le> length (allBitsRecursive (XOR_node a its))"
proof -
  from assms obtain x y rest where its: "its = x # y # rest"
    by (cases its; cases "tl its") auto
  with assms have "allBitsRecursive x \<noteq> []" and "allBitsRecursive y \<noteq> []"
    by (simp_all add: leaves_nonempty)
  then have "1 \<le> length (allBitsRecursive x)" and "1 \<le> length (allBitsRecursive y)"
    by (simp_all add: Suc_le_eq)
  with its show ?thesis by simp
qed

lemma flatten_loop_succeeds:
  assumes "list_all (\<lambda>e. is_XOR e \<and> well_formed e) w"
  shows "\<exists>w'. flatten_loop w newItems n = Inr (newItems @ w', n + length w) \<and>
     list_all2 (\<lambda>e e'. \<exists>a. e' = XOR_node a (allBitsRecursive e)) w w'"
  using assms
proof (induction w arbitrary: newItems n)
  case Nil
  then show ?case by simp
next
  case (Cons e w)
  then obtain a its where e: "e = XOR_node a its"
    by (cases e) auto
  with Cons.prems have "well_formed (XOR_node a its)"
    by simp
  then have "2 \<le> length (allBitsRecursive (XOR_node a its))"
    by (rule two_leaves)
  then have x: "XOR_init (allBitsRecursive (XOR_node a its)) n =
      Inr (XOR_node n (allBitsRecursive (XOR_node a its)), Suc n)"
    by (simp add: XOR_init_def)
  from Cons.prems have "list_all (\<lambda>e. is_XOR e \<and> well_formed e) w"
    by simp
  from Cons.IH [OF this, of "newItems @ [XOR_node n (allBitsRecursive (XOR_node a its))]" "Suc n"]
  obtain w' where w': "flatten_loop w (newItems @ [XOR_node n (allBitsRecursive (XOR_node a its))]) (Suc n)
      = Inr ((newItems @ [XOR_node n (allBitsRecursive (XOR_node a its))]) @ w', Suc n + length w)"
    "list_all2 (\<lambda>e e'. \<exists>a. e' = XOR_node a (allBitsRecursive e)) w w'"
    by blast
  have "flatten_loop (e # w) newItems n
      = Inr (newItems @ (XOR_node n (allBitsRecursive (XOR_node a its)) # w'), n + length (e # w))"
    unfolding e using x w'(1) by simp
  moreover have "list_all2 (\<lambda>e e'. \<exists>a. e' = XOR_node a (allBitsRecursive e)) (e # w)
      (XOR_node n (allBitsRecursive (XOR_node a its)) # w')"
    using w'(2) e by simp
  ultimately show ?case by blast
qed

lemma flatten_succeeds:
  assumes "list_all (\<lambda>e. is_XOR e \<and> well_formed e) w"
  shows "\<exists>w'. flatten w n = Inr (w', n + length w) \<and>
     list_all2 (\<lambda>e e'. \<exists>a. e' = XOR_node a (allBitsRecursive e)) w w'"
  using flatten_loop_succeeds [OF assms, of "[]" n] by (simp add: flatten_def)

lemma flatten_loop_Bit_fails:
  "list_ex is_Bit w \<Longrightarrow> isl (flatten_loop w newItems n)"
proof (induction w arbitrary: newItems n)
  case Nil
  then show ?case by simp
next
  case (Cons e w)
  show ?case
  proof (cases e)
    case (Bit nm ix)
    then show ?thesis by simp
  next
    case (XOR_node a its)
    with Cons.prems have "list_ex is_Bit w" by simp
    from Cons.IH [OF this] XOR_node show ?thesis
      by (cases "XOR_init (allBitsRecursive (XOR_node a its)) n") auto
  qed
qed

lemma combined_is_XOR:
  "combined P k a b x \<Longrightarrow> is_XOR a \<and> well_formed a \<Longrightarrow> is_XOR b \<and> well_formed b
   \<Longrightarrow> is_XOR x \<and> well_formed x"
  by (cases x) (auto simp: combined_def split: if_splits)

lemma round_of_is_XOR:
  assumes "round_of P u v" and "length u = 8"
    and "list_all (\<lambda>e. is_XOR e \<and> well_formed e) u"
  shows "list_all (\<lambda>e. is_XOR e \<and> well_formed e) v"
proof -
  have u: "\<And>i. i < 8 \<Longrightarrow> is_XOR (u ! i) \<and> well_formed (u ! i)"
    using assms(2,3) by (simp add: list_all_length)
  have "is_XOR (v ! i) \<and> well_formed (v ! i)" if "i < 8" for i
  proof (cases "i = 0")
    case True
    with assms(1) u [of 7] show ?thesis by (simp add: round_of_def)
  next
    case False
    with that have "combined P i (u ! (i - 1)) (u ! 7) (v ! i)"
      using round_of_nth [OF assms(1), of i] by simp
    from combined_is_XOR [OF this] u [of "i - 1"] u [of 7] that show ?thesis by simp
  qed
  moreover have "length v = 8"
    using assms(1) by (simp add: round_of_def)
  ultimately show ?thesis by (simp add: list_all_length)
qed

lemma gen_unrolled_eq:
  assumes "CrcGen_nrBits self = 8"
  shows "gen_unrolled self d c n =
     gen_loop 8 (CrcGen_P self)
       [XOR_node (n + 7) [Bit d 0, Bit c 0], XOR_node (n + 6) [Bit d 1, Bit c 1],
        XOR_node (n + 5) [Bit d 2, Bit c 2], XOR_node (n + 4) [Bit d 3, Bit c 3],
        XOR_node (n + 3) [Bit d 4, Bit c 4], XOR_node (n + 2) [Bit d 5, Bit c 5],
        XOR_node (n + 1) [Bit d 6, Bit c 6], XOR_node n [Bit d 7, Bit c 7]] (n + 8)"
  using assms unfolding gen_unrolled_def Let_def base_items_gen
  by (simp add: Word_init_def)

lemma gen_unrolled_is_XOR:
  assumes "CrcGen_nrBits self = 8"
  shows "\<exists>word n'. gen_unrolled self d c n = Inr (word, n') \<and> length word = 8 \<and>
     list_all (\<lambda>e. is_XOR e \<and> well_formed e) word"
proof -
  let ?base = "[XOR_node (n + 7) [Bit d 0, Bit c 0], XOR_node (n + 6) [Bit d 1, Bit c 1],
        XOR_node (n + 5) [Bit d 2, Bit c 2], XOR_node (n + 4) [Bit d 3, Bit c 3],
        XOR_node (n + 3) [Bit d 4, Bit c 4], XOR_node (n + 2) [Bit d 5, Bit c 5],
        XOR_node (n + 1) [Bit d 6, Bit c 6], XOR_node n [Bit d 7, Bit c 7]]"
  have "\<exists>w' n'. gen_loop 8 (CrcGen_P self) ?base (n + 8) = Inr (w', n') \<and>
      list_all (\<lambda>e. is_XOR e \<and> well_formed e) w' \<and> length w' = 8"
    by (rule gen_loop_invariant [where I = "\<lambda>j w. list_all (\<lambda>e. is_XOR e \<and> well_formed e) w" and j = 0])
      (simp_all add: round_of_is_XOR)
  then show ?thesis
    unfolding gen_unrolled_eq [OF assms] by blast
qed

lemma gen_succeeds:
  assumes "CrcGen_nrBits self = 8"
  shows "\<exists>word n1 word' n2. gen_unrolled self d c n = Inr (word, n1) \<and> length word = 8 \<and>
     list_all is_XOR word \<and> flatten word n1 = Inr (word', n2) \<and>
     gen self d c n = Inr (Word_optimize word', n2)"
proof -
  from gen_unrolled_is_XOR [OF assms, of d c n]
  obtain word n1 where w: "gen_unrolled self d c n = Inr (word, n1)" "length word = 8"
    "list_all (\<lambda>e. is_XOR e \<and> well_formed e) word"
    by blast
  from flatten_succeeds [OF w(3), of n1]
  obtain word' where f: "flatten word n1 = Inr (word', n1 + length word)"
    by blast
  have "gen self d c n = Inr (Word_optimize word', n1 + length word)"
    by (simp add: gen_def w(1) f)
  moreover have "list_all is_XOR word"
    using w(3) by (simp add: list_all_iff)
  ultimately show ?thesis using w f by blast
qed

lemma gen_wrong_width: "CrcGen_nrBits self \<noteq> 8 \<Longrightarrow> gen self d c n = Inl AssertionError"
  by (simp add: gen_def gen_unrolled_def)

subsection \<open>The unrolling refines its specification\<close>

lemma combined_erase:
  "combined P k a b x \<Longrightarrow> erase x = spec_combine P (erase a) (erase b) k"
  by (cases x) (auto simp: combined_def spec_combine_def split: if_splits)

lemma round_of_erase:
  assumes "round_of P u v" and "length u = 8"
  shows "map erase v = spec_round P (map erase u)"
proof (rule nth_equalityI)
  show len: "length (map erase v) = length (spec_round P (map erase u))"
    using assms(1) by (simp add: round_of_def spec_round_def)
  fix i
  assume "i < length (map erase v)"
  then have i: "i < 8"
    using assms(1) by (simp add: round_of_def)
  show "map erase v ! i = spec_round P (map erase u) ! i"
  proof (cases "i = 0")
    case True
    with assms show ?thesis by (simp add: round_of_def spec_round_def)
  next
    case False
    with i have c: "combined P i (u ! (i - 1)) (u ! 7) (v ! i)"
      using round_of_nth [OF assms(1), of i] by simp
    have "[1..<8] ! (i - 1) = i"
      using False i by (subst nth_upt) simp_all
    then have "spec_round P (map erase u) ! i =
        spec_combine P (map erase u ! (i - 1)) (map erase u ! 7) i"
      using False i by (simp add: spec_round_def nth_Cons' del: One_nat_def)
    also have "\<dots> = spec_combine P (erase (u ! (i - 1))) (erase (u ! 7)) i"
      using i assms(2) by simp
    also have "\<dots> = erase (v ! i)"
      using combined_erase [OF c] by simp
    finally show ?thesis
      using i assms(1) by (simp add: round_of_def)
  qed
qed

lemma gen_unrolled_erase:
  assumes "CrcGen_nrBits self = 8"
  shows "\<exists>word n'. gen_unrolled self d c n = Inr (word, n') \<and>
     map erase word = spec_unrolled (CrcGen_P self) d c"
proof -
  let ?P = "CrcGen_P self"
  let ?base = "[XOR_node (n + 7) [Bit d 0, Bit c 0], XOR_node (n + 6) [Bit d 1, Bit c 1],
        XOR_node (n + 5) [Bit d 2, Bit c 2], XOR_node (n + 4) [Bit d 3, Bit c 3],
        XOR_node (n + 3) [Bit d 4, Bit c 4], XOR_node (n + 2) [Bit d 5, Bit c 5],
        XOR_node (n + 1) [Bit d 6, Bit c 6], XOR_node n [Bit d 7, Bit c 7]]"
  have u: "[0..<8] = [0, 1, 2, 3, 4, 5, 6, 7::nat]"
    by (simp add: upt_rec)
  have base: "map erase ?base = (spec_round ?P ^^ 0) (spec_base d c)"
    by (simp add: spec_base_def u)
  have "\<exists>w' n'. gen_loop 8 ?P ?base (n + 8) = Inr (w', n') \<and>
      map erase w' = (spec_round ?P ^^ (0 + 8)) (spec_base d c) \<and> length w' = 8"
  proof (rule gen_loop_invariant
          [where I = "\<lambda>j w. map erase w = (spec_round ?P ^^ j) (spec_base d c)"])
    show "map erase ?base = (spec_round ?P ^^ 0) (spec_base d c)"
      by (rule base)
    show "length ?base = 8"
      by simp
    fix j u v
    assume "map erase u = (spec_round ?P ^^ j) (spec_base d c)"
      and "length u = 8" and "round_of ?P u v"
    then show "map erase v = (spec_round ?P ^^ Suc j) (spec_base d c)"
      using round_of_erase [of ?P u v] by simp
  qed
  then show ?thesis
    unfolding gen_unrolled_eq [OF assms] spec_unrolled_def by auto
qed

lemma CrcGen_init_Inr:
  "CrcGen_init P nrBits = Inr self \<Longrightarrow>
     odd P \<and> CrcGen_P self = P \<and> CrcGen_nrBits self = nrBits"
  by (auto simp: CrcGen_init_def and_one_eq mod_2_eq_odd split: if_splits)

lemma main_invalid:
  assumes "even (args_polynomial a) \<or>
     (0 \<le> args_nr_bits a \<and> args_polynomial a > 2 ^ nat (args_nr_bits a) - 1)"
  shows "main a n = ([], Some (Exception ''Invalid polynomial.''))"
  using assms by (auto simp: main_def and_one_eq mod_2_eq_odd push_bit_of_1)

subsection \<open>Claims about the generator\<close>

text \<open>
  C2. One pass of the loop of \<^verbatim>\<open>__gen\<close> derives the new word from the previous one as
  specified: position \<open>i\<close>, for \<open>i\<close> from 7 down to 1, is a new \<^verbatim>\<open>XOR\<close> node of
  \<open>prev[i-1]\<close> and \<open>prev[7]\<close> when bit \<open>i\<close> of the polynomial is set and \<open>prev[i-1]\<close>
  itself otherwise, and position 0 is \<open>prev[7]\<close>. The word that \<^verbatim>\<open>__gen\<close> hands to
  \<^verbatim>\<open>flatten\<close> is, up to the identities of the objects, the base word of the nodes
  \<open>XOR(dataBit i, crcBit i)\<close> taken through exactly eight such rounds.
\<close>

theorem gen_unrolled_follows_spec:
  "(8 \<le> length prevWord \<longrightarrow>
      (\<exists>word n'. gen_round P prevWord n = Inr (word, n') \<and> round_of P prevWord word)) \<and>
   (CrcGen_nrBits self = 8 \<longrightarrow>
      (\<exists>word n'. gen_unrolled self dataVarName crcVarName n = Inr (word, n') \<and>
         map erase word = spec_unrolled (CrcGen_P self) dataVarName crcVarName))"
  using gen_round_round_of [of prevWord P n]
    gen_unrolled_erase [of self dataVarName crcVarName n]
  by blast

theorem gen_unrolled_follows_spec_witness:
  "(\<exists>word n'. gen_round 7
       [Bit ''x'' 0, Bit ''x'' 1, Bit ''x'' 2, Bit ''x'' 3, Bit ''x'' 4, Bit ''x'' 5,
        Bit ''x'' 6, Bit ''x'' 7] 0 = Inr (word, n') \<and>
     round_of 7
       [Bit ''x'' 0, Bit ''x'' 1, Bit ''x'' 2, Bit ''x'' 3, Bit ''x'' 4, Bit ''x'' 5,
        Bit ''x'' 6, Bit ''x'' 7] word) \<and>
   (\<exists>word n'. gen_unrolled \<lparr>CrcGen_P = 7, CrcGen_nrBits = 8\<rparr> ''data'' ''crc'' 0 = Inr (word, n') \<and>
      map erase word = spec_unrolled 7 ''data'' ''crc'')"
  using gen_unrolled_follows_spec [of
      "[Bit ''x'' 0, Bit ''x'' 1, Bit ''x'' 2, Bit ''x'' 3, Bit ''x'' 4, Bit ''x'' 5,
        Bit ''x'' 6, Bit ''x'' 7]" 7 0 "\<lparr>CrcGen_P = 7, CrcGen_nrBits = 8\<rparr>" "''data''" "''crc''"]
  by simp

text \<open>
  C4 does not hold of the code. The specification requires \<^verbatim>\<open>flatten\<close> to pass a bare
  \<^verbatim>\<open>Bit\<close> through unchanged; the branch of the code that should do so appends the
  undefined name \<^verbatim>\<open>bit\<close> instead of \<^verbatim>\<open>item\<close>. So \<^verbatim>\<open>flatten\<close> raises on every word that
  has a bare \<^verbatim>\<open>Bit\<close> at some position, and raises \<^verbatim>\<open>NameError\<close> on the word of the single
  item \<^verbatim>\<open>Bit("data", 0)\<close>.
\<close>

theorem flatten_bare_Bit_fails: "list_ex is_Bit w \<Longrightarrow> isl (flatten w n)"
  by (simp add: flatten_def flatten_loop_Bit_fails)

theorem flatten_bare_Bit_fails_witness:
  "list_ex is_Bit [Bit ''data'' 0] \<and> isl (flatten [Bit ''data'' 0] 0) \<and>
   flatten [Bit ''data'' 0] 0 = Inl NameError"
  using flatten_bare_Bit_fails [of "[Bit ''data'' 0]" 0]
  by (simp add: flatten_def)

text \<open>
  C5. For a generator made by the constructor (so with an odd polynomial) for 8 bits, the
  word that the loop of \<^verbatim>\<open>__gen\<close> produces has 8 positions and an \<^verbatim>\<open>XOR\<close> node at every
  one of them; \<^verbatim>\<open>flatten\<close> therefore never takes the branch with the undefined name and
  succeeds, and \<^verbatim>\<open>__gen\<close> returns the optimized word.
\<close>

theorem gen_word_all_XOR:
  "CrcGen_init P 8 = Inr self \<Longrightarrow>
   \<exists>word n1 word' n2.
     gen_unrolled self dataVarName crcVarName n = Inr (word, n1) \<and> length word = 8 \<and>
     list_all is_XOR word \<and> flatten word n1 = Inr (word', n2) \<and>
     gen self dataVarName crcVarName n = Inr (Word_optimize word', n2)"
  using gen_succeeds [of self dataVarName crcVarName n] CrcGen_init_Inr [of P 8 self]
  by simp

theorem gen_word_all_XOR_witness:
  "CrcGen_init 7 8 = Inr \<lparr>CrcGen_P = 7, CrcGen_nrBits = 8\<rparr> \<and>
   (\<exists>word n1 word' n2.
     gen_unrolled \<lparr>CrcGen_P = 7, CrcGen_nrBits = 8\<rparr> ''data'' ''crc'' 0 = Inr (word, n1) \<and>
     length word = 8 \<and> list_all is_XOR word \<and> flatten word n1 = Inr (word', n2) \<and>
     gen \<lparr>CrcGen_P = 7, CrcGen_nrBits = 8\<rparr> ''data'' ''crc'' 0 = Inr (Word_optimize word', n2))"
proof -
  have i: "CrcGen_init 7 8 = Inr \<lparr>CrcGen_P = 7, CrcGen_nrBits = 8\<rparr>"
    by (simp add: CrcGen_init_def)
  from i gen_word_all_XOR [OF i, of "''data''" "''crc''" 0] show ?thesis
    by (simp only: simp_thms)
qed

text \<open>
  C8. For a generator made with a width other than 8, \<^verbatim>\<open>__gen\<close> fails with its
  assertion, and so do \<^verbatim>\<open>genPython\<close>, \<^verbatim>\<open>genVerilog\<close> and \<^verbatim>\<open>genC\<close>, whatever their other
  arguments are: none of them returns a text.
\<close>

theorem gen_rejects_other_widths:
  "CrcGen_init P nrBits = Inr self \<Longrightarrow> nrBits \<noteq> 8 \<Longrightarrow>
   gen self dataVarName crcVarName n = Inl AssertionError \<and>
   genPython self funcName crcVarName dataVarName n = Inl AssertionError \<and>
   genVerilog self genFunction funcName dataVarName crcVarName outCrcName n = Inl AssertionError \<and>
   genC self funcName crcVarName dataVarName static inline n = Inl AssertionError"
  using gen_wrong_width [of self] CrcGen_init_Inr [of P nrBits self]
  by (simp add: genPython_def genVerilog_def genC_def)

theorem gen_rejects_other_widths_witness:
  "CrcGen_init 7 16 = Inr \<lparr>CrcGen_P = 7, CrcGen_nrBits = 16\<rparr> \<and> (16::int) \<noteq> 8 \<and>
   gen \<lparr>CrcGen_P = 7, CrcGen_nrBits = 16\<rparr> ''data'' ''crc'' 0 = Inl AssertionError \<and>
   genPython \<lparr>CrcGen_P = 7, CrcGen_nrBits = 16\<rparr> ''crc'' ''crc'' ''data'' 0 = Inl AssertionError \<and>
   genVerilog \<lparr>CrcGen_P = 7, CrcGen_nrBits = 16\<rparr> True ''crc'' ''data'' ''crc'' ''outCrc'' 0
     = Inl AssertionError \<and>
   genC \<lparr>CrcGen_P = 7, CrcGen_nrBits = 16\<rparr> ''crc'' ''crc'' ''data'' False False 0 = Inl AssertionError"
proof -
  have i: "CrcGen_init 7 16 = Inr \<lparr>CrcGen_P = 7, CrcGen_nrBits = 16\<rparr>"
    by (simp add: CrcGen_init_def)
  have w: "(16::int) \<noteq> 8"
    by simp
  from i w gen_rejects_other_widths [OF i w, of "''data''" "''crc''" 0 "''crc''" True "''outCrc''" False False]
  show ?thesis by (simp only: simp_thms)
qed

text \<open>
  C9. When the polynomial is even, or exceeds \<open>2 ^ nr_bits - 1\<close>, the program raises
  \<^verbatim>\<open>Exception("Invalid polynomial.")\<close> before it constructs the generator: nothing is
  printed to the standard output, and the program exits with status 1.
\<close>

theorem main_rejects_invalid_polynomial:
  "even (args_polynomial a) \<or>
     (0 \<le> args_nr_bits a \<and> args_polynomial a > 2 ^ nat (args_nr_bits a) - 1) \<Longrightarrow>
   main a n = ([], Some (Exception ''Invalid polynomial.''))"
  by (rule main_invalid)

theorem main_rejects_invalid_polynomial_witness:
  "main \<lparr>args_python = True, args_verilog_function = False, args_verilog_module = False,
      args_c = False, args_polynomial = 0x08, args_nr_bits = 8, args_name = ''crc'',
      args_data_param = ''data'', args_crc_in_param = ''crcIn'', args_crc_out_param = ''crcOut'',
      args_static = False, args_inline = False, args_test = False\<rparr> 0
     = ([], Some (Exception ''Invalid polynomial.'')) \<and>
   main \<lparr>args_python = True, args_verilog_function = False, args_verilog_module = False,
      args_c = False, args_polynomial = 0x107, args_nr_bits = 8, args_name = ''crc'',
      args_data_param = ''data'', args_crc_in_param = ''crcIn'', args_crc_out_param = ''crcOut'',
      args_static = False, args_inline = False, args_test = False\<rparr> 0
     = ([], Some (Exception ''Invalid polynomial.''))"
  using main_rejects_invalid_polynomial [of
      "\<lparr>args_python = True, args_verilog_function = False, args_verilog_module = False,
      args_c = False, args_polynomial = 0x08, args_nr_bits = 8, args_name = ''crc'',
      args_data_param = ''data'', args_crc_in_param = ''crcIn'', args_crc_out_param = ''crcOut'',
      args_static = False, args_inline = False, args_test = False\<rparr>" 0]
    main_rejects_invalid_polynomial [of
      "\<lparr>args_python = True, args_verilog_function = False, args_verilog_module = False,
      args_c = False, args_polynomial = 0x107, args_nr_bits = 8, args_name = ''crc'',
      args_data_param = ''data'', args_crc_in_param = ''crcIn'', args_crc_out_param = ''crcOut'',
      args_static = False, args_inline = False, args_test = False\<rparr>" 0]
  by simp

subsection \<open>\<^verbatim>\<open>flatten\<close> and \<^verbatim>\<open>optimize\<close> keep what an expression denotes\<close>

lemma xor_all_append: "xor_all (xs @ ys) = (xor_all xs \<noteq> xor_all ys)"
  by (induction xs) auto

lemma xor_all_concat: "xor_all (concat xss) = xor_all (map xor_all xss)"
  by (induction xss) (simp_all add: xor_all_append)

lemma denotes_leaves: "denotes env e = xor_all (map (denotes env) (allBitsRecursive e))"
proof (induction e)
  case (Bit nm ix)
  then show ?case by simp
next
  case (XOR_node a its)
  have eq: "map (denotes env) its =
      map (\<lambda>x. xor_all (map (denotes env) (allBitsRecursive x))) its"
    by (rule map_cong) (simp_all add: XOR_node.IH)
  have "denotes env (XOR_node a its) = xor_all (map (denotes env) its)"
    by simp
  also have "\<dots> = xor_all (map (\<lambda>x. xor_all (map (denotes env) (allBitsRecursive x))) its)"
    using eq by (rule arg_cong)
  also have "\<dots> = xor_all (map (denotes env) (allBitsRecursive (XOR_node a its)))"
    by (simp add: map_concat xor_all_concat comp_def)
  finally show ?case .
qed

lemma denotes_flattened: "denotes env (XOR_node a (allBitsRecursive e)) = denotes env e"
  using denotes_leaves [of env e] by simp

lemma xor_all_filter: "xor_all (map t xs) = odd (length (filter t xs))"
  by (induction xs) auto

lemma count_list_distinct: "distinct xs \<Longrightarrow> count_list xs x = (if x \<in> set xs then 1 else 0)"
  by (induction xs) auto

lemma count_list_filter:
  "count_list (filter t xs) x = (if t x then count_list xs x else 0)"
  by (induction xs) auto

lemma odd_sum_cong:
  "finite X \<Longrightarrow> \<forall>x\<in>X. odd (f x) = odd (g x) \<Longrightarrow> odd (sum f X) = odd (sum g X :: nat)"
  by (induction X rule: finite_induct) auto

lemma odd_filter_cong:
  assumes "\<forall>x. odd (count_list xs x) = odd (count_list ys x)"
  shows "odd (length (filter t xs)) = odd (length (filter t ys))"
proof -
  let ?X = "set xs \<union> set ys"
  have "length (filter t xs) = sum (count_list (filter t xs)) ?X"
    by (rule sum_count_set [symmetric]) auto
  moreover have "length (filter t ys) = sum (count_list (filter t ys)) ?X"
    by (rule sum_count_set [symmetric]) auto
  moreover have "odd (sum (count_list (filter t xs)) ?X) = odd (sum (count_list (filter t ys)) ?X)"
    by (rule odd_sum_cong) (use assms in \<open>simp_all add: count_list_filter\<close>)
  ultimately show ?thesis by simp
qed

lemma py_in_Bit: "is_Bit item \<Longrightarrow> py_in item xs \<longleftrightarrow> item \<in> set xs"
  by (auto simp: py_in_iff py_eq_Bit_right)

lemma optimize_loop_set:
  "list_all is_Bit xs \<Longrightarrow>
   set (optimize_loop L xs newItems) = set newItems \<union> {x \<in> set xs. odd (count_list L x)}"
  by (induction L xs newItems rule: optimize_loop.induct)
    (auto simp: py_in_Bit bit_count_Bit odd_iff_mod_2_eq_one)

lemma optimize_loop_distinct_Bits:
  "list_all is_Bit xs \<Longrightarrow> distinct newItems \<Longrightarrow> distinct (optimize_loop L xs newItems)"
  by (induction L xs newItems rule: optimize_loop.induct) (auto simp: py_in_Bit)

lemma optimize_loop_counts:
  assumes "list_all is_Bit L"
  shows "odd (count_list (optimize_loop L L []) x) = odd (count_list L x)"
proof -
  let ?R = "optimize_loop L L []"
  have d: "distinct ?R"
    by (rule optimize_loop_distinct_Bits [OF assms]) simp
  have s: "set ?R = {x \<in> set L. odd (count_list L x)}"
    using optimize_loop_set [OF assms, of L "[]"] by simp
  have "count_list ?R x = (if x \<in> set ?R then 1 else 0)"
    using d by (rule count_list_distinct)
  moreover have "x \<in> set ?R \<longleftrightarrow> odd (count_list L x)"
    unfolding s using count_list_0_iff [of L x] by auto
  ultimately show ?thesis by simp
qed

lemma denotes_optimize_flat:
  assumes "list_all is_Bit L"
  shows "denotes env (optimize (XOR_node a L)) = denotes env (XOR_node a L)"
  using odd_filter_cong [of "optimize_loop L L []" L "denotes env"] optimize_loop_counts [OF assms]
  by (simp add: xor_all_filter)

lemma leaves_are_Bits: "list_all is_Bit (allBitsRecursive e)"
  by (induction e) (auto simp: list_all_iff)





subsection \<open>Bits of the reference \<^verbatim>\<open>crc8_ref\<close>\<close>

lemma bit_255: "bit (255::int) i \<longleftrightarrow> i < 8"
proof -
  have e: "(255::int) = mask 8" by (simp add: mask_eq_exp_minus_1)
  show ?thesis unfolding e bit_mask_iff by simp
qed

lemma and_128: "(x::int) AND 128 \<noteq> 0 \<longleftrightarrow> bit x 7"
  using bit_iff_and_push_bit_not_eq_0 [of x 7] by simp

lemma bit_shift_left_1: "bit (push_bit 1 (x::int)) i \<longleftrightarrow> 1 \<le> i \<and> bit x (i - 1)"
  by (rule bit_push_bit_iff_int)

lemma bit_crc8_step:
  "bit (crc8_step x P) i \<longleftrightarrow> i < 8 \<and> ((1 \<le> i \<and> bit x (i - 1)) \<noteq> (bit x 7 \<and> bit P i))"
proof (cases "bit x 7")
  case True
  then have "crc8_step x P = (push_bit 1 x XOR P) AND 255"
    unfolding crc8_step_def using and_128 [of x] by simp
  then show ?thesis
    using True by (simp only: bit_and_iff bit_xor_iff bit_shift_left_1 bit_255) auto
next
  case False
  then have "crc8_step x P = (push_bit 1 x XOR 0) AND 255"
    unfolding crc8_step_def using and_128 [of x] by simp
  then show ?thesis
    using False by (simp only: bit_and_iff bit_xor_iff bit_shift_left_1 bit_255 bit_0_eq) auto
qed

lemma crc8_ref_loop_bound: "bit (crc8_ref_loop (Suc k) x P) i \<Longrightarrow> i < 8"
proof (induction k arbitrary: x)
  case 0
  then show ?case by (simp add: bit_crc8_step)
next
  case (Suc k)
  from Suc.prems have "bit (crc8_ref_loop (Suc k) (crc8_step x P) P) i"
    by simp
  then show ?case by (rule Suc.IH)
qed

subsection \<open>The unrolled word denotes the bits of \<^verbatim>\<open>crc8_ref\<close>\<close>

lemma below_8: "(i::nat) < 8 \<Longrightarrow> i \<in> {0, 1, 2, 3, 4, 5, 6, 7}"
  by auto

lemma all_less_8:
  "(\<forall>i<8::nat. Q i) \<longleftrightarrow> Q 0 \<and> Q 1 \<and> Q 2 \<and> Q 3 \<and> Q 4 \<and> Q 5 \<and> Q 6 \<and> Q 7"
  using below_8 by auto

lemma crc8_ref_loop_Suc:
  "crc8_ref_loop (Suc k) x P = crc8_step (crc8_ref_loop k x P) P"
  by (induction k arbitrary: x) simp_all

lemma combined_denotes:
  "combined P k a b x \<Longrightarrow> denotes env x = (denotes env a \<noteq> (bit P k \<and> denotes env b))"
  by (cases x) (auto simp: combined_def split: if_splits)

lemma round_of_denotes:
  assumes "round_of P u v" and "length u = 8" and "odd P"
    and u: "\<forall>i<8. denotes env (u ! i) = bit x i"
  shows "\<forall>i<8. denotes env (v ! i) = bit (crc8_step x P) i"
proof (intro allI impI)
  fix i :: nat
  assume i: "i < 8"
  show "denotes env (v ! i) = bit (crc8_step x P) i"
  proof (cases "i = 0")
    case True
    have "bit P 0"
      using assms(3) by (simp add: bit_0)
    with True assms(1) u show ?thesis
      by (simp add: round_of_def bit_crc8_step)
  next
    case False
    with i have c: "combined P i (u ! (i - 1)) (u ! 7) (v ! i)"
      using round_of_nth [OF assms(1), of i] by simp
    from False i u have "denotes env (u ! (i - 1)) = bit x (i - 1)" and "denotes env (u ! 7) = bit x 7"
      by simp_all
    with combined_denotes [OF c, of env] False i show ?thesis
      by (auto simp: bit_crc8_step)
  qed
qed

lemma base_denotes:
  assumes "dataN \<noteq> crcN"
  shows "\<forall>i<8. denotes (bit_env crcN dataN c d)
     ([XOR_node (n + 7) [Bit dataN 0, Bit crcN 0], XOR_node (n + 6) [Bit dataN 1, Bit crcN 1],
       XOR_node (n + 5) [Bit dataN 2, Bit crcN 2], XOR_node (n + 4) [Bit dataN 3, Bit crcN 3],
       XOR_node (n + 3) [Bit dataN 4, Bit crcN 4], XOR_node (n + 2) [Bit dataN 5, Bit crcN 5],
       XOR_node (n + 1) [Bit dataN 6, Bit crcN 6], XOR_node n [Bit dataN 7, Bit crcN 7]] ! i)
     = bit (d XOR c) i"
  unfolding all_less_8 using assms by (simp add: bit_env_def bit_xor_iff)

lemma gen_unrolled_denotes:
  assumes "CrcGen_nrBits self = 8" and "odd (CrcGen_P self)" and "dataN \<noteq> crcN"
    and g: "gen_unrolled self dataN crcN n = Inr (word, n')"
  shows "\<forall>i<8. denotes (bit_env crcN dataN c d) (word ! i) = bit (crc8_ref c d (CrcGen_P self)) i"
proof -
  let ?P = "CrcGen_P self"
  let ?env = "bit_env crcN dataN c d"
  let ?base = "[XOR_node (n + 7) [Bit dataN 0, Bit crcN 0], XOR_node (n + 6) [Bit dataN 1, Bit crcN 1],
       XOR_node (n + 5) [Bit dataN 2, Bit crcN 2], XOR_node (n + 4) [Bit dataN 3, Bit crcN 3],
       XOR_node (n + 3) [Bit dataN 4, Bit crcN 4], XOR_node (n + 2) [Bit dataN 5, Bit crcN 5],
       XOR_node (n + 1) [Bit dataN 6, Bit crcN 6], XOR_node n [Bit dataN 7, Bit crcN 7]]"
  have "\<exists>w' n'. gen_loop 8 ?P ?base (n + 8) = Inr (w', n') \<and>
      (\<forall>i<8. denotes ?env (w' ! i) = bit (crc8_ref_loop (0 + 8) (d XOR c) ?P) i) \<and> length w' = 8"
  proof (rule gen_loop_invariant
      [where I = "\<lambda>j w. \<forall>i<8. denotes ?env (w ! i) = bit (crc8_ref_loop j (d XOR c) ?P) i"])
    show "\<forall>i<8. denotes ?env (?base ! i) = bit (crc8_ref_loop 0 (d XOR c) ?P) i"
      using base_denotes [OF assms(3), of c d n] by simp
    show "length ?base = 8"
      by simp
    fix j u v
    assume "\<forall>i<8. denotes ?env (u ! i) = bit (crc8_ref_loop j (d XOR c) ?P) i"
      and "length u = 8" and "round_of ?P u v"
    from round_of_denotes [OF this(3) this(2) assms(2) this(1)]
    show "\<forall>i<8. denotes ?env (v ! i) = bit (crc8_ref_loop (Suc j) (d XOR c) ?P) i"
      by (simp only: crc8_ref_loop_Suc)
  qed
  with g show ?thesis
    unfolding gen_unrolled_eq [OF assms(1)] crc8_ref_def by auto
qed

subsection \<open>The value of the printed expressions\<close>

lemma combined_leaves:
  "combined P k a b x \<Longrightarrow> list_all Q (allBitsRecursive a) \<Longrightarrow> list_all Q (allBitsRecursive b)
   \<Longrightarrow> list_all Q (allBitsRecursive x)"
  by (cases x) (auto simp: combined_def split: if_splits)

lemma round_of_leaves:
  assumes "round_of P u v" and "length u = 8"
    and u: "\<forall>i<8. list_all Q (allBitsRecursive (u ! i))"
  shows "\<forall>i<8. list_all Q (allBitsRecursive (v ! i))"
proof (intro allI impI)
  fix i :: nat
  assume i: "i < 8"
  show "list_all Q (allBitsRecursive (v ! i))"
  proof (cases "i = 0")
    case True
    with assms(1) u show ?thesis
      by (simp add: round_of_def)
  next
    case False
    with i have c: "combined P i (u ! (i - 1)) (u ! 7) (v ! i)"
      using round_of_nth [OF assms(1), of i] by simp
    from False i u have "list_all Q (allBitsRecursive (u ! (i - 1)))"
      and "list_all Q (allBitsRecursive (u ! 7))"
      by simp_all
    with c show ?thesis
      by (rule combined_leaves)
  qed
qed

lemma gen_unrolled_leaves:
  assumes "CrcGen_nrBits self = 8"
    and g: "gen_unrolled self dataN crcN n = Inr (word, n')"
  shows "\<forall>i<8. list_all (reads_register crcN dataN) (allBitsRecursive (word ! i))"
proof -
  let ?P = "CrcGen_P self"
  let ?base = "[XOR_node (n + 7) [Bit dataN 0, Bit crcN 0], XOR_node (n + 6) [Bit dataN 1, Bit crcN 1],
       XOR_node (n + 5) [Bit dataN 2, Bit crcN 2], XOR_node (n + 4) [Bit dataN 3, Bit crcN 3],
       XOR_node (n + 3) [Bit dataN 4, Bit crcN 4], XOR_node (n + 2) [Bit dataN 5, Bit crcN 5],
       XOR_node (n + 1) [Bit dataN 6, Bit crcN 6], XOR_node n [Bit dataN 7, Bit crcN 7]]"
  have "\<exists>w' n'. gen_loop 8 ?P ?base (n + 8) = Inr (w', n') \<and>
      (\<forall>i<8. list_all (reads_register crcN dataN) (allBitsRecursive (w' ! i))) \<and> length w' = 8"
  proof (rule gen_loop_invariant
      [where I = "\<lambda>j w. \<forall>i<8. list_all (reads_register crcN dataN) (allBitsRecursive (w ! i))"
         and j = 0])
    show "\<forall>i<8. list_all (reads_register crcN dataN) (allBitsRecursive (?base ! i))"
      unfolding all_less_8 by simp
    show "length ?base = 8"
      by simp
    fix j :: nat and u v
    assume "\<forall>i<8. list_all (reads_register crcN dataN) (allBitsRecursive (u ! i))"
      and "length u = 8" and "round_of ?P u v"
    from round_of_leaves [OF this(3) this(2) this(1)]
    show "\<forall>i<8. list_all (reads_register crcN dataN) (allBitsRecursive (v ! i))" .
  qed
  with g show ?thesis
    unfolding gen_unrolled_eq [OF assms(1)] by auto
qed

lemma and_1_of_bool: "(v::int) AND 1 = of_bool (bit v 0)"
  by (simp add: and_one_eq bit_0 of_bool_odd_eq_mod_2)

lemma drop_bit_and_1: "drop_bit k (v::int) AND 1 = of_bool (bit v k)"
  by (simp add: and_one_eq bit_iff_odd_drop_bit of_bool_odd_eq_mod_2)

lemma py_value_Bit:
  assumes "reads_register crcN dataN e"
  shows "py_value (\<lambda>nm. if nm = crcN then Some c else if nm = dataN then Some d else None) e =
     Inr (PyInt (of_bool (denotes (bit_env crcN dataN c d) e)))"
proof -
  from assms obtain nm ix where e: "e = Bit nm ix" and nm: "nm = crcN \<or> nm = dataN" and ix: "0 \<le> ix"
    by (cases e) auto
  show ?thesis
  proof (cases "ix = 0")
    case True
    with e nm show ?thesis
      by (auto simp: bit_env_def and_1_of_bool)
  next
    case False
    with e nm ix show ?thesis
      by (auto simp: bit_env_def drop_bit_and_1)
  qed
qed

lemma of_bool_xor: "(of_bool a :: int) XOR of_bool b = of_bool (a \<noteq> b)"
  by (cases a; cases b) simp_all

lemma xor_join_fold:
  "foldl (\<lambda>acc w. bind_error acc (\<lambda>x. bind_error w (\<lambda>y. py_xor x y)))
     (Inr (PyInt (of_bool b))) (map (\<lambda>x. Inr (PyInt (of_bool (t x)))) xs) =
   Inr (PyInt (of_bool (b \<noteq> xor_all (map t xs))))"
proof (induction xs arbitrary: b)
  case Nil
  then show ?case by simp
next
  case (Cons x xs)
  have "(b \<noteq> t x) \<noteq> xor_all (map t xs) \<longleftrightarrow> b \<noteq> (t x \<noteq> xor_all (map t xs))"
    by auto
  with Cons.IH [of "b \<noteq> t x"] show ?case
    by (simp add: of_bool_xor)
qed

lemma py_value_XOR_of_Bits:
  assumes "R \<noteq> []" and "list_all (reads_register crcN dataN) R"
  shows "py_value (\<lambda>nm. if nm = crcN then Some c else if nm = dataN then Some d else None)
       (XOR_node a R) =
     Inr (PyInt (of_bool (denotes (bit_env crcN dataN c d) (XOR_node a R))))"
proof -
  let ?venv = "\<lambda>nm. if nm = crcN then Some c else if nm = dataN then Some d else None"
  let ?t = "denotes (bit_env crcN dataN c d)"
  have m: "map (py_value ?venv) R = map (\<lambda>x. Inr (PyInt (of_bool (?t x)))) R"
    by (rule map_cong) (use assms(2) in \<open>auto simp: list_all_iff py_value_Bit\<close>)
  from assms(1) obtain x xs where R: "R = x # xs"
    by (cases R) auto
  have "py_value ?venv (XOR_node a R) = xor_join (map (\<lambda>x. Inr (PyInt (of_bool (?t x)))) R)"
    by (simp only: py_value.simps m)
  also have "\<dots> = Inr (PyInt (of_bool (?t x \<noteq> xor_all (map ?t xs))))"
    unfolding R by (simp only: list.map xor_join.simps xor_join_fold)
  finally show ?thesis
    by (simp add: R)
qed

subsection \<open>Every output bit depends on the input\<close>

lemma bit_127: "bit (127::int) i \<longleftrightarrow> i < 7"
proof -
  have e: "(127::int) = mask 7" by (simp add: mask_eq_exp_minus_1)
  show ?thesis unfolding e bit_mask_iff by simp
qed

lemma bit_128: "bit (128::int) i \<longleftrightarrow> i = 7"
proof -
  have e: "(128::int) = 2 ^ 7" by simp
  show ?thesis unfolding e bit_exp_iff by auto
qed

lemma crc8_step_preimage:
  assumes "odd P" and y: "\<forall>i. bit y i \<longrightarrow> i < 8"
  shows "\<exists>x. (\<forall>i. bit x i \<longrightarrow> i < 8) \<and> crc8_step x P = y"
proof -
  define z where "z = y XOR (if odd y then P else 0)"
  define x where "x = (drop_bit 1 z AND 127) OR (if odd y then 128 else 0)"
  have bx: "bit x m \<longleftrightarrow> (m < 7 \<and> bit z (Suc m)) \<or> (odd y \<and> m = 7)" for m
    unfolding x_def by (auto simp: bit_or_iff bit_and_iff bit_drop_bit_eq bit_127 bit_128)
  have bz: "bit z m \<longleftrightarrow> (bit y m \<noteq> (odd y \<and> bit P m))" for m
    unfolding z_def by (simp add: bit_xor_iff)
  have P0: "bit P 0"
    using assms(1) by (simp add: bit_0)
  have y0: "bit y 0 \<longleftrightarrow> odd y"
    by (simp add: bit_0)
  have "bit (crc8_step x P) i \<longleftrightarrow> bit y i" for i
  proof (cases "i = 0")
    case True
    then show ?thesis
      using P0 y0 by (simp add: bit_crc8_step bx)
  next
    case False
    show ?thesis
    proof (cases "i < 8")
      case True
      with False have "Suc (i - 1) = i" and "i - 1 < 7"
        by simp_all
      with True False show ?thesis
        by (auto simp: bit_crc8_step bx bz)
    next
      case False
      with y show ?thesis
        by (auto simp: bit_crc8_step)
    qed
  qed
  then have "crc8_step x P = y"
    by (simp add: bit_eq_iff)
  moreover have "\<forall>i. bit x i \<longrightarrow> i < 8"
    by (auto simp: bx)
  ultimately show ?thesis by blast
qed

lemma crc8_ref_loop_preimage:
  assumes "odd P" and "\<forall>i. bit y i \<longrightarrow> i < 8"
  shows "\<exists>x. (\<forall>i. bit x i \<longrightarrow> i < 8) \<and> crc8_ref_loop k x P = y"
proof (induction k)
  case 0
  with assms(2) show ?case by auto
next
  case (Suc k)
  then obtain x' where x': "\<forall>i. bit x' i \<longrightarrow> i < 8" "crc8_ref_loop k x' P = y"
    by blast
  from crc8_step_preimage [OF assms(1) x'(1)]
  obtain x where "\<forall>i. bit x i \<longrightarrow> i < 8" and "crc8_step x P = x'"
    by blast
  with x'(2) show ?case
    by (intro exI [of _ x]) simp
qed

lemma crc8_ref_hits_bit:
  assumes "odd P" and "i < 8"
  shows "\<exists>d. bit (crc8_ref 0 d P) i"
proof -
  have "\<forall>j. bit ((2::int) ^ i) j \<longrightarrow> j < 8"
    using assms(2) by (auto simp: bit_exp_iff)
  from crc8_ref_loop_preimage [OF assms(1) this, of 8]
  obtain x where "crc8_ref_loop 8 x P = 2 ^ i"
    by blast
  then have "bit (crc8_ref 0 x P) i"
    by (simp add: crc8_ref_def bit_exp_iff)
  then show ?thesis ..
qed

subsection \<open>The generated function\<close>

lemma optimize_loop_subset:
  "list_all is_Bit L \<Longrightarrow> set (optimize_loop L L []) \<subseteq> set L"
  using optimize_loop_set [of L L "[]"] by auto

lemma gen_positions:
  assumes "CrcGen_nrBits self = 8" and "odd (CrcGen_P self)" and "dataN \<noteq> crcN"
  shows "\<exists>word n'. gen self dataN crcN n = Inr (word, n') \<and> length word = 8 \<and>
     (\<forall>i<8. \<forall>c d.
        py_value (\<lambda>nm. if nm = crcN then Some c else if nm = dataN then Some d else None) (word ! i)
        = Inr (PyInt (of_bool (bit (crc8_ref c d (CrcGen_P self)) i))))"
proof -
  let ?P = "CrcGen_P self"
  from gen_unrolled_is_XOR [OF assms(1), of dataN crcN n]
  obtain word0 n1 where g0: "gen_unrolled self dataN crcN n = Inr (word0, n1)"
    and len0: "length word0 = 8"
    and wf0: "list_all (\<lambda>e. is_XOR e \<and> well_formed e) word0"
    by blast
  from flatten_succeeds [OF wf0, of n1]
  obtain word1 where f: "flatten word0 n1 = Inr (word1, n1 + length word0)"
    and r: "list_all2 (\<lambda>e e'. \<exists>a. e' = XOR_node a (allBitsRecursive e)) word0 word1"
    by blast
  have len1: "length word1 = 8"
    using r len0 by (simp add: list_all2_lengthD)
  have g: "gen self dataN crcN n = Inr (Word_optimize word1, n1 + length word0)"
    by (simp add: gen_def g0 f)
  have "py_value (\<lambda>nm. if nm = crcN then Some c else if nm = dataN then Some d else None)
         (Word_optimize word1 ! i)
       = Inr (PyInt (of_bool (bit (crc8_ref c d ?P) i)))" if i: "i < 8" for i c d
  proof -
    let ?L = "allBitsRecursive (word0 ! i)"
    let ?R = "optimize_loop ?L ?L []"
    from r i len0 obtain a where w1: "word1 ! i = XOR_node a ?L"
      by (auto simp: list_all2_conv_all_nth)
    then have w2: "Word_optimize word1 ! i = XOR_node a ?R"
      using i len1 by (simp add: Word_optimize_def)
    have bits: "list_all is_Bit ?L"
      by (rule leaves_are_Bits)
    have regs: "list_all (reads_register crcN dataN) ?L"
      using gen_unrolled_leaves [OF assms(1) g0] i by simp
    have regsR: "list_all (reads_register crcN dataN) ?R"
      using regs optimize_loop_subset [OF bits] by (auto simp: list_all_iff)
    have den: "denotes (bit_env crcN dataN c' d') (XOR_node a ?R) = bit (crc8_ref c' d' ?P) i"
      for c' d'
    proof -
      have "denotes (bit_env crcN dataN c' d') (XOR_node a ?R)
          = denotes (bit_env crcN dataN c' d') (XOR_node a ?L)"
        using denotes_optimize_flat [OF bits, of _ a] by simp
      also have "\<dots> = denotes (bit_env crcN dataN c' d') (word0 ! i)"
        by (rule denotes_flattened)
      also have "\<dots> = bit (crc8_ref c' d' ?P) i"
        using gen_unrolled_denotes [OF assms g0, of c' d'] i by simp
      finally show ?thesis .
    qed
    have ne: "?R \<noteq> []"
    proof
      assume e: "?R = []"
      from crc8_ref_hits_bit [OF assms(2) i] obtain d' where "bit (crc8_ref 0 d' ?P) i"
        by blast
      with den [of 0 d'] show False
        by (simp add: e)
    qed
    from py_value_XOR_of_Bits [OF ne regsR, of c d a] den [of c d] w2 show ?thesis
      by simp
  qed
  moreover have "length (Word_optimize word1) = 8"
    using len1 by (simp add: Word_optimize_def)
  ultimately show ?thesis
    using g by blast
qed

lemma length_8_conv:
  "length w = 8 \<Longrightarrow> w = [w ! 0, w ! 1, w ! 2, w ! 3, w ! 4, w ! 5, w ! 6, w ! 7]"
  by (simp add: list_eq_iff_nth_eq all_less_8)

lemma bit_shifted_of_bool: "bit (push_bit k (of_bool b :: int)) n \<longleftrightarrow> b \<and> n = k"
  by (auto simp: bit_push_bit_iff_int bit_of_bool_iff)

lemma assemble_bits:
  assumes "\<forall>i. bit (r::int) i \<longrightarrow> i < 8"
  shows "of_bool (bit r 0) OR push_bit 1 (of_bool (bit r 1)) OR push_bit 2 (of_bool (bit r 2)) OR
     push_bit 3 (of_bool (bit r 3)) OR push_bit 4 (of_bool (bit r 4)) OR
     push_bit 5 (of_bool (bit r 5)) OR push_bit 6 (of_bool (bit r 6)) OR
     push_bit 7 (of_bool (bit r 7)) = r"
    (is "?s = r")
proof (rule bit_eqI)
  fix n :: nat
  have s: "bit ?s n \<longleftrightarrow>
      (bit r 0 \<and> n = 0) \<or> (bit r 1 \<and> n = 1) \<or> (bit r 2 \<and> n = 2) \<or> (bit r 3 \<and> n = 3) \<or>
      (bit r 4 \<and> n = 4) \<or> (bit r 5 \<and> n = 5) \<or> (bit r 6 \<and> n = 6) \<or> (bit r 7 \<and> n = 7)"
    by (simp only: bit_or_iff bit_shifted_of_bool bit_of_bool_iff possible_bit_def simp_thms) blast
  show "bit ?s n \<longleftrightarrow> bit r n"
  proof (cases "n < 8")
    case True
    from below_8 [OF this] show ?thesis
      unfolding s by auto
  next
    case False
    with assms have "\<not> bit r n"
      by blast
    with False show ?thesis
      unfolding s by auto
  qed
qed

lemma crc_body_assemble:
  assumes "length word = 8"
    and v: "\<forall>i<8. py_value env (word ! i) = Inr (PyInt (of_bool (bit r i)))"
    and r: "\<forall>i. bit (r::int) i \<longrightarrow> i < 8"
  shows "crc_body env (zip [0..<length word] word) None = Inr (PyInt r)"
proof -
  have u: "[0..<8] = [0, 1, 2, 3, 4, 5, 6, 7::nat]"
    by (simp add: upt_rec)
  from v have v': "py_value env (word ! 0) = Inr (PyInt (of_bool (bit r 0)))"
    "py_value env (word ! 1) = Inr (PyInt (of_bool (bit r 1)))"
    "py_value env (word ! 2) = Inr (PyInt (of_bool (bit r 2)))"
    "py_value env (word ! 3) = Inr (PyInt (of_bool (bit r 3)))"
    "py_value env (word ! 4) = Inr (PyInt (of_bool (bit r 4)))"
    "py_value env (word ! 5) = Inr (PyInt (of_bool (bit r 5)))"
    "py_value env (word ! 6) = Inr (PyInt (of_bool (bit r 6)))"
    "py_value env (word ! 7) = Inr (PyInt (of_bool (bit r 7)))"
    by simp_all
  have "crc_body env (zip [0..<8] [word ! 0, word ! 1, word ! 2, word ! 3, word ! 4, word ! 5,
        word ! 6, word ! 7]) None
      = Inr (PyInt (((((((of_bool (bit r 0) OR push_bit 1 (of_bool (bit r 1))) OR
          push_bit 2 (of_bool (bit r 2))) OR push_bit 3 (of_bool (bit r 3))) OR
          push_bit 4 (of_bool (bit r 4))) OR push_bit 5 (of_bool (bit r 5))) OR
          push_bit 6 (of_bool (bit r 6))) OR push_bit 7 (of_bool (bit r 7))))"
    unfolding u by (simp add: v' del: One_nat_def push_bit_of_Suc_0)
  also have "\<dots> = Inr (PyInt r)"
    using assemble_bits [OF r] by (simp add: ac_simps)
  finally show ?thesis
    using length_8_conv [OF assms(1)] assms(1) by simp
qed

lemma gen_crc_py:
  assumes "CrcGen_nrBits self = 8" and "odd (CrcGen_P self)" and "dataN \<noteq> crcN"
  shows "\<exists>word n'. gen self dataN crcN n = Inr (word, n') \<and> length word = 8 \<and>
     (\<forall>c d. crc_py word crcN dataN c d = Inr (PyInt (crc8_ref c d (CrcGen_P self))))"
proof -
  from gen_positions [OF assms, of n]
  obtain word n' where g: "gen self dataN crcN n = Inr (word, n')" and len: "length word = 8"
    and v: "\<And>i c d. i < 8 \<Longrightarrow>
        py_value (\<lambda>nm. if nm = crcN then Some c else if nm = dataN then Some d else None) (word ! i)
        = Inr (PyInt (of_bool (bit (crc8_ref c d (CrcGen_P self)) i)))"
    by blast
  have "crc_py word crcN dataN c d = Inr (PyInt (crc8_ref c d (CrcGen_P self)))" for c d
  proof -
    have "\<forall>i. bit (crc8_ref c d (CrcGen_P self)) i \<longrightarrow> i < 8"
      using crc8_ref_loop_bound [of 7 "d XOR c" "CrcGen_P self"] by (simp add: crc8_ref_def)
    with crc_body_assemble [OF len, of _ "crc8_ref c d (CrcGen_P self)"] v [of _ c d]
    show ?thesis
      by (simp add: crc_py_def)
  qed
  with g len show ?thesis by blast
qed

lemma test_loop_passes:
  "\<forall>c d. crc_py word ''crc'' ''data'' c d = Inr (PyInt (crc8_ref c d P)) \<Longrightarrow>
   test_loop word P pairs = None"
  by (induction pairs) auto

lemma main_test_passes:
  assumes "odd (args_polynomial a)" and "args_polynomial a \<le> 255"
    and "args_nr_bits a = 8" and "args_test a"
  shows "main a n = ([''Testing...'', ''done.''], None)"
proof -
  let ?P = "args_polynomial a"
  let ?g = "\<lparr>CrcGen_P = ?P, CrcGen_nrBits = 8\<rparr>"
  have i: "CrcGen_init ?P 8 = Inr ?g"
    using assms(1) by (simp add: CrcGen_init_def and_one_eq mod_2_eq_odd)
  from gen_crc_py [of ?g "''data''" "''crc''" n] assms(1)
  obtain word n' where g: "gen ?g ''data'' ''crc'' n = Inr (word, n')"
    and c: "\<forall>c d. crc_py word ''crc'' ''data'' c d = Inr (PyInt (crc8_ref c d ?P))"
    by auto
  have t: "test_loop word ?P (List.product (map int [0..<256]) (map int [0..<256])) = None"
    using c by (rule test_loop_passes)
  have py: "\<exists>pyCode. genPython ?g ''crc'' ''crc'' ''data'' n = Inr (pyCode, n')"
    by (simp add: genPython_def g)
  have v: "?P AND 1 \<noteq> 0"
    using assms(1) by (simp add: and_one_eq mod_2_eq_odd)
  from py obtain pyCode where "genPython ?g ''crc'' ''crc'' ''data'' n = Inr (pyCode, n')"
    by blast
  with assms v i g t show ?thesis
    by (simp add: main_def)
qed

subsection \<open>Claim about the generated function\<close>

text \<open>
  C1. For a generator made by the constructor for 8 bits (so for every odd polynomial
  \<open>P\<close>, in particular every odd \<open>P\<close> with \<open>0 < P \<le> 255\<close>) and two different parameter
  names, \<^verbatim>\<open>__gen\<close> returns a word of 8 formulas, and the function that \<^verbatim>\<open>genPython\<close>
  prints from it (the value of formula \<open>i\<close> shifted left by \<open>i\<close>, all of them joined by
  \<^verbatim>\<open>|\<close>) returns, for all integers \<open>c\<close> and \<open>d\<close> (in particular for all of them from 0
  to 255), the integer that the bit-serial reference \<^verbatim>\<open>crc8_ref(c, d, P)\<close> returns.
\<close>

theorem generated_crc_equals_reference:
  "CrcGen_init P 8 = Inr self \<Longrightarrow> crcVarName \<noteq> dataVarName \<Longrightarrow>
   \<exists>word n'. gen self dataVarName crcVarName n = Inr (word, n') \<and> length word = 8 \<and>
     (\<forall>c d. crc_py word crcVarName dataVarName c d = Inr (PyInt (crc8_ref c d P)))"
  using gen_crc_py [of self dataVarName crcVarName n] CrcGen_init_Inr [of P 8 self]
  by auto

theorem generated_crc_equals_reference_witness:
  "CrcGen_init 7 8 = Inr \<lparr>CrcGen_P = 7, CrcGen_nrBits = 8\<rparr> \<and> ''crc'' \<noteq> ''data'' \<and>
   (\<exists>word n'. gen \<lparr>CrcGen_P = 7, CrcGen_nrBits = 8\<rparr> ''data'' ''crc'' 0 = Inr (word, n') \<and>
      length word = 8 \<and> crc_py word ''crc'' ''data'' 0x5A 0xC3 = Inr (PyInt 198))"
proof -
  have i: "CrcGen_init 7 8 = Inr \<lparr>CrcGen_P = 7, CrcGen_nrBits = 8\<rparr>"
    by (simp add: CrcGen_init_def)
  have nm: "''crc'' \<noteq> ''data''"
    by simp
  have r: "crc8_ref 0x5A 0xC3 7 = 198"
    by (simp add: crc8_ref_def crc8_step_def numeral_eq_Suc)
  from generated_crc_equals_reference [OF i nm, of 0] r i nm show ?thesis
    by metis
qed

end
